theory Spec2Isabelle
  imports Main "HOL-Library.Word"
begin

section \<open>Thread/8\_Thread\_promise.cpp: the promise/future demo\<close>

text \<open>
  C++ \<open>int\<close> is a 32-bit two's complement integer: a \<open>32 word\<close>, read with \<open>sint\<close>.
  Addition on words wraps around, which is what the hardware does where C++ leaves the
  overflow of a signed addition undefined.
\<close>

type_synonym cint = "32 word"

text \<open>
  The exceptions that can travel through the channel. \<open>catch (std::exception &)\<close> in
  \<open>Operation\<close> catches every exception derived from \<open>std::exception\<close>
  (\<open>std::future_error\<close> is one of them) and nothing else.
\<close>

datatype exn = Std_exception | Future_error | Non_std

fun catches_std_exception :: "exn \<Rightarrow> bool" where
  "catches_std_exception Std_exception = True"
| "catches_std_exception Future_error = True"
| "catches_std_exception Non_std = False"

text \<open>
  Modelled from the spec: the one-shot value/error channel (\<open>std::promise\<close> and
  \<open>std::future\<close> of the standard library, whose code is not part of the repository).
  The spec describes it as a tagged result cell with the three states Empty, Value and
  Error, completed at most once (a second attempt is a usage error), with a blocking
  retrieval that suspends while the cell is Empty and that is usable exactly once per
  value. The promise and the one future it hands out share the cell, so the channel is
  one record: the cell, and where the future stands. The future is handed out once
  (a second \<open>get_future\<close> is a usage error, \<open>std::future_error\<close>), it is valid from
  then until its \<open>get\<close> has delivered, and spent afterwards.
\<close>

datatype 'a cell = Empty | Value 'a | Error exn

datatype future_state = Not_retrieved | Held | Spent

record 'a promise =
  shared :: "'a cell"
  future :: future_state

datatype 'a outcome = Blocked | Returned 'a | Raised exn

text \<open>Modelled from the spec: a new channel is empty and its future not handed out.\<close>

definition new_promise :: "'a promise" where
  "new_promise = \<lparr>shared = Empty, future = Not_retrieved\<rparr>"

text \<open>Modelled from the spec: \<open>future.valid()\<close>.\<close>

definition valid :: "'a promise \<Rightarrow> bool" where
  "valid p = (future p = Held)"

text \<open>Modelled from the spec: completing the cell with a value, at most once.\<close>

definition set_value :: "'a \<Rightarrow> 'a promise \<Rightarrow> exn + 'a promise" where
  "set_value v p =
     (case shared p of Empty \<Rightarrow> Inr (p\<lparr>shared := Value v\<rparr>) | _ \<Rightarrow> Inl Future_error)"

text \<open>Modelled from the spec: completing the cell with an error, at most once.\<close>

definition set_exception :: "exn \<Rightarrow> 'a promise \<Rightarrow> exn + 'a promise" where
  "set_exception e p =
     (case shared p of Empty \<Rightarrow> Inr (p\<lparr>shared := Error e\<rparr>) | _ \<Rightarrow> Inl Future_error)"

text \<open>
  Modelled from the spec: \<open>promise.get_future()\<close> hands the future out once; any
  further call throws.
\<close>

definition get_future :: "'a promise \<Rightarrow> exn + 'a promise" where
  "get_future p =
     (case future p of
        Not_retrieved \<Rightarrow> Inr (p\<lparr>future := Held\<rparr>)
      | _ \<Rightarrow> Inl Future_error)"

text \<open>
  Modelled from the spec: retrieval, \<open>future.get()\<close>. On the valid future it suspends
  while the cell is Empty, and returns the value or re-raises the error otherwise,
  which spends the future. Without a valid future it yields no value: it is a usage
  error.
\<close>

definition future_get :: "'a promise \<Rightarrow> 'a outcome \<times> 'a promise" where
  "future_get p =
     (case future p of
        Held \<Rightarrow>
          (case shared p of
             Empty \<Rightarrow> (Blocked, p)
           | Value v \<Rightarrow> (Returned v, p\<lparr>future := Spent\<rparr>)
           | Error e \<Rightarrow> (Raised e, p\<lparr>future := Spent\<rparr>))
      | _ \<Rightarrow> (Raised Future_error, p))"

text \<open>
  The loop of \<open>Operation\<close>: \<open>for (int i = 0; i < count; ++i) sum += i;\<close> with a signed
  comparison and wrapping addition (the accumulator \<open>sum\<close> is called \<open>sm\<close> here).
\<close>

function Operation_loop :: "cint \<Rightarrow> cint \<Rightarrow> cint \<Rightarrow> cint" where
  "Operation_loop count i sm =
     (if sint i < sint count then Operation_loop count (i + 1) (sm + i) else sm)"
  by pat_completeness auto

lemma sint_succ_below:
  fixes i count :: cint
  assumes "sint i < sint count"
  shows "sint (i + 1) = sint i + 1"
proof -
  have "sint count < 2 ^ 31" using sint_less [of count] by simp
  moreover have "- (2 ^ 31) \<le> sint i" using sint_greater_eq [of i] by simp
  ultimately have "- (2 ^ 31) \<le> sint i + 1 \<and> sint i + 1 < 2 ^ 31"
    using assms by simp
  then have "signed_take_bit 31 (sint i + 1) = sint i + 1"
    by (simp add: signed_take_bit_int_eq_self)
  then show ?thesis by (simp add: sint_word_ariths)
qed

termination Operation_loop
  by (relation "measure (\<lambda>(count, i, sm). nat (sint count - sint i))")
     (simp_all add: sint_succ_below)

declare Operation_loop.simps [simp del]

text \<open>
  \<open>Operation\<close>, given the promise as it is when \<open>f.get()\<close> looks at it. Line 18
  obtains the future, outside the \<open>try\<close>: when the future has been handed out before,
  the exception leaves the function. Inside the \<open>try\<close>, line 24 retrieves the count
  (blocking while the cell is empty), the loop sums \<open>0 .. count - 1\<close> and the sum is
  returned; an exception caught by \<open>catch (std::exception &)\<close> makes the function
  return \<open>-1\<close>, any other one leaves it. The promise is returned as \<open>Operation\<close>
  leaves it.
\<close>

definition Operation :: "cint promise \<Rightarrow> cint outcome \<times> cint promise" where
  "Operation data =
     (case get_future data of
        Inl ex \<Rightarrow> (Raised ex, data)
      | Inr f \<Rightarrow>
          (case future_get f of
             (Blocked, f') \<Rightarrow> (Blocked, f')
           | (Returned count, f') \<Rightarrow> (Returned (Operation_loop count 0 0), f')
           | (Raised ex, f') \<Rightarrow>
               (if catches_std_exception ex then (Returned (- 1), f') else (Raised ex, f'))))"

text \<open>
  \<open>main\<close>: the promise starts empty, \<open>data.set_value(10)\<close> completes it, the task
  runs \<open>Operation\<close>, and \<open>result.get()\<close> retrieves the sum, which \<open>main\<close> prints. The
  result is the printed sum, if one is printed. (The task obtains its future before
  \<open>main\<close> sets the value; the two touch different parts of the channel, so the order
  does not matter.)
\<close>

definition main_promise :: "cint option" where
  "main_promise =
     (case set_value 10 new_promise of
        Inr data \<Rightarrow> (case fst (Operation data) of Returned sm \<Rightarrow> Some sm | _ \<Rightarrow> None)
      | Inl ex \<Rightarrow> None)"

section \<open>Concurrency/10\_Thread\_ConditionVariable\_example.cpp: Download and ProcessData\<close>

text \<open>
  The program runs two threads, \<open>producer\<close> (running \<open>Download\<close>) and \<open>consumer\<close>
  (running \<open>ProcessData\<close>), over the globals \<open>g_Data\<close>, \<open>g_DownloadFinished\<close>,
  \<open>g_Mutex\<close> and \<open>g_CV\<close>. Each thread is a state machine over its program points; a
  step executes one statement. The mutex is the thread that holds it, if any; a thread
  that wants a held mutex does not move. The loop counters stay between 0 and
  \<open>SIZE\<close>, far from the limits of \<open>int\<close>, and are modelled as integers.
  The console lines "Pushed i" and "Processed value" are kept as the lists \<open>pushed\<close>
  and \<open>processed\<close>.
\<close>

datatype thread = producer | consumer

text \<open>Program points of \<open>Download\<close>, with the loop counter \<open>i\<close> where it is live.\<close>

datatype Download_pc =
    D_for int          \<comment> \<open>line 28: the test \<open>i < SIZE\<close>\<close>
  | D_lock int         \<comment> \<open>line 31: \<open>lock_guard\<close> acquires \<open>g_Mutex\<close>\<close>
  | D_push int         \<comment> \<open>lines 32-33: \<open>g_Data.push_back(i)\<close>, "Pushed i"\<close>
  | D_unlock int       \<comment> \<open>line 34: the scope ends, the guard releases\<close>
  | D_notify int       \<comment> \<open>line 35: \<open>g_CV.notify_one()\<close>, then \<open>++i\<close>\<close>
  | D_lock_fin         \<comment> \<open>line 39\<close>
  | D_set_fin          \<comment> \<open>line 40: \<open>g_DownloadFinished = true\<close>\<close>
  | D_unlock_fin       \<comment> \<open>line 41\<close>
  | D_notify_fin       \<comment> \<open>line 42\<close>
  | D_return           \<comment> \<open>line 44: "Finished download"\<close>

text \<open>
  Program points of \<open>ProcessData\<close>. \<open>g_CV.wait(lock, pred)\<close> is
  \<open>while (!pred()) wait(lock)\<close>: \<open>P_wait\<close> tests the predicate with the lock held,
  \<open>P_sleeping\<close> is the suspended thread (lock released), \<open>P_woken\<close> the thread that
  was woken and has to take the lock again before it tests the predicate once more.
  \<open>P_undefined\<close> stands for \<open>front()\<close> on an empty list, which C++ leaves undefined.
\<close>

datatype ProcessData_pc =
    P_lock             \<comment> \<open>line 52: \<open>unique_lock\<close> acquires \<open>g_Mutex\<close>\<close>
  | P_wait             \<comment> \<open>line 55: the predicate of \<open>wait\<close>\<close>
  | P_sleeping         \<comment> \<open>line 55: suspended inside \<open>wait\<close>\<close>
  | P_woken            \<comment> \<open>line 55: woken inside \<open>wait\<close>, re-acquiring\<close>
  | P_while            \<comment> \<open>line 58: the test \<open>!g_Data.empty()\<close>\<close>
  | P_pop              \<comment> \<open>lines 59-60: \<open>front()\<close> and \<open>pop_front()\<close>\<close>
  | P_unlock int       \<comment> \<open>line 61: \<open>lock.unlock()\<close>, holding \<open>value\<close>\<close>
  | P_process int      \<comment> \<open>line 62: "Processed value"\<close>
  | P_relock           \<comment> \<open>line 63: \<open>lock.lock()\<close>\<close>
  | P_if               \<comment> \<open>line 67: the exit test; the lock is released either way\<close>
  | P_return           \<comment> \<open>line 72: "All data processed, exiting."\<close>
  | P_undefined

record state10 =
  g_Data :: "int list"
  g_DownloadFinished :: bool
  g_Mutex :: "thread option"
  pc_Download :: Download_pc
  pc_ProcessData :: ProcessData_pc
  pushed :: "int list"
  processed :: "int list"

definition SIZE :: int where
  "SIZE = 10"

definition init10 :: state10 where
  "init10 = \<lparr>g_Data = [], g_DownloadFinished = False, g_Mutex = None,
             pc_Download = D_for 0, pc_ProcessData = P_lock,
             pushed = [], processed = []\<rparr>"

text \<open>\<open>g_CV.notify_one()\<close>: a thread suspended in \<open>wait\<close> is woken; otherwise nothing happens.\<close>

definition notify_one :: "state10 \<Rightarrow> state10" where
  "notify_one s =
     (if pc_ProcessData s = P_sleeping then s\<lparr>pc_ProcessData := P_woken\<rparr> else s)"

text \<open>The predicate of the wait at line 55.\<close>

definition wait_pred :: "state10 \<Rightarrow> bool" where
  "wait_pred s = (g_Data s \<noteq> [] \<or> g_DownloadFinished s)"

text \<open>One statement of \<open>Download\<close>.\<close>

definition Download :: "state10 \<Rightarrow> state10" where
  "Download s =
     (case pc_Download s of
        D_for i \<Rightarrow> s\<lparr>pc_Download := (if i < SIZE then D_lock i else D_lock_fin)\<rparr>
      | D_lock i \<Rightarrow>
          (if g_Mutex s = None
           then s\<lparr>g_Mutex := Some producer, pc_Download := D_push i\<rparr> else s)
      | D_push i \<Rightarrow>
          s\<lparr>g_Data := g_Data s @ [i], pushed := pushed s @ [i], pc_Download := D_unlock i\<rparr>
      | D_unlock i \<Rightarrow> s\<lparr>g_Mutex := None, pc_Download := D_notify i\<rparr>
      | D_notify i \<Rightarrow> notify_one (s\<lparr>pc_Download := D_for (i + 1)\<rparr>)
      | D_lock_fin \<Rightarrow>
          (if g_Mutex s = None
           then s\<lparr>g_Mutex := Some producer, pc_Download := D_set_fin\<rparr> else s)
      | D_set_fin \<Rightarrow> s\<lparr>g_DownloadFinished := True, pc_Download := D_unlock_fin\<rparr>
      | D_unlock_fin \<Rightarrow> s\<lparr>g_Mutex := None, pc_Download := D_notify_fin\<rparr>
      | D_notify_fin \<Rightarrow> notify_one (s\<lparr>pc_Download := D_return\<rparr>)
      | D_return \<Rightarrow> s)"

text \<open>One statement of \<open>ProcessData\<close>.\<close>

definition ProcessData :: "state10 \<Rightarrow> state10" where
  "ProcessData s =
     (case pc_ProcessData s of
        P_lock \<Rightarrow>
          (if g_Mutex s = None
           then s\<lparr>g_Mutex := Some consumer, pc_ProcessData := P_wait\<rparr> else s)
      | P_wait \<Rightarrow>
          (if wait_pred s then s\<lparr>pc_ProcessData := P_while\<rparr>
           else s\<lparr>g_Mutex := None, pc_ProcessData := P_sleeping\<rparr>)
      | P_sleeping \<Rightarrow> s
      | P_woken \<Rightarrow>
          (if g_Mutex s = None
           then s\<lparr>g_Mutex := Some consumer, pc_ProcessData := P_wait\<rparr> else s)
      | P_while \<Rightarrow> s\<lparr>pc_ProcessData := (if g_Data s \<noteq> [] then P_pop else P_if)\<rparr>
      | P_pop \<Rightarrow>
          (case g_Data s of
             [] \<Rightarrow> s\<lparr>pc_ProcessData := P_undefined\<rparr>
           | v # rest \<Rightarrow> s\<lparr>g_Data := rest, pc_ProcessData := P_unlock v\<rparr>)
      | P_unlock v \<Rightarrow> s\<lparr>g_Mutex := None, pc_ProcessData := P_process v\<rparr>
      | P_process v \<Rightarrow> s\<lparr>processed := processed s @ [v], pc_ProcessData := P_relock\<rparr>
      | P_relock \<Rightarrow>
          (if g_Mutex s = None
           then s\<lparr>g_Mutex := Some consumer, pc_ProcessData := P_while\<rparr> else s)
      | P_if \<Rightarrow>
          (if g_DownloadFinished s \<and> g_Data s = []
           then s\<lparr>g_Mutex := None, pc_ProcessData := P_return\<rparr>
           else s\<lparr>g_Mutex := None, pc_ProcessData := P_lock\<rparr>)
      | P_return \<Rightarrow> s
      | P_undefined \<Rightarrow> s)"

text \<open>
  What the scheduler can do: run the next statement of a thread, or wake the suspended
  consumer without any notification (a spurious wakeup).
\<close>

datatype 't event = Run 't | Spurious_wakeup

fun step10 :: "thread event \<Rightarrow> state10 \<Rightarrow> state10" where
  "step10 (Run producer) s = Download s"
| "step10 (Run consumer) s = ProcessData s"
| "step10 Spurious_wakeup s = notify_one s"

text \<open>An execution is a schedule, run from left to right.\<close>

definition exec10 :: "thread event list \<Rightarrow> state10 \<Rightarrow> state10" where
  "exec10 sch s = fold step10 sch s"

text \<open>The value the consumer has taken out of the queue and not yet reported.\<close>

definition in_hand :: "state10 \<Rightarrow> int list" where
  "in_hand s =
     (case pc_ProcessData s of P_unlock v \<Rightarrow> [v] | P_process v \<Rightarrow> [v] | _ \<Rightarrow> [])"

text \<open>
  \<open>close()\<close> of the queue is lines 38 to 42 of \<open>Download\<close>: under the lock the flag
  is set, then the consumer is notified. The lock is free again afterwards.
\<close>

definition close :: "state10 \<Rightarrow> state10" where
  "close s = notify_one (s\<lparr>g_DownloadFinished := True\<rparr>)"






section \<open>Concurrency/9\_Thread\_condition\_variable.cpp: Producer and Consumer\<close>

text \<open>
  The same kind of model for the second condition-variable program: thread \<open>t1\<close> runs
  \<open>Producer\<close>, thread \<open>t2\<close> runs \<open>Consumer\<close>, over the globals \<open>g_data\<close>, \<open>mtx\<close> and
  \<open>cv\<close>. This program has no shutdown flag: the consumer takes exactly \<open>SIZE\<close> items.
  The console lines "Produced: i" and "Consumed: item" are the lists \<open>produced\<close> and
  \<open>consumed\<close>.
\<close>

datatype thread9 = t1 | t2

datatype Producer_pc =
    Pr_for int         \<comment> \<open>line 23: the test \<open>i <= SIZE\<close>\<close>
  | Pr_lock int        \<comment> \<open>line 25: \<open>lock_guard\<close> acquires \<open>mtx\<close>\<close>
  | Pr_push int        \<comment> \<open>lines 26-27: \<open>g_data.push(i)\<close>, "Produced: i"\<close>
  | Pr_unlock int      \<comment> \<open>line 28: the scope ends, the guard releases\<close>
  | Pr_notify int      \<comment> \<open>lines 29-30: \<open>cv.notify_one()\<close>, the sleep, then \<open>i++\<close>\<close>
  | Pr_return

datatype Consumer_pc =
    Co_for int         \<comment> \<open>line 36: the test \<open>i <= SIZE\<close>\<close>
  | Co_lock int        \<comment> \<open>line 37: \<open>unique_lock\<close> acquires \<open>mtx\<close>\<close>
  | Co_wait int        \<comment> \<open>line 38: the predicate of \<open>wait\<close>\<close>
  | Co_sleeping int    \<comment> \<open>line 38: suspended inside \<open>wait\<close>\<close>
  | Co_woken int       \<comment> \<open>line 38: woken inside \<open>wait\<close>, re-acquiring\<close>
  | Co_pop int         \<comment> \<open>lines 47-48: \<open>front()\<close> and \<open>pop()\<close>\<close>
  | Co_print int int   \<comment> \<open>line 49: "Consumed: item"\<close>
  | Co_unlock int      \<comment> \<open>line 50: the scope ends, the lock is released, then \<open>i++\<close>\<close>
  | Co_return
  | Co_undefined       \<comment> \<open>\<open>front()\<close> on an empty queue\<close>

record state9 =
  g_data :: "int list"
  mtx :: "thread9 option"
  pc_Producer :: Producer_pc
  pc_Consumer :: Consumer_pc
  produced :: "int list"
  consumed :: "int list"

definition SIZE9 :: int where
  "SIZE9 = 5"

definition init9 :: state9 where
  "init9 = \<lparr>g_data = [], mtx = None, pc_Producer = Pr_for 1, pc_Consumer = Co_for 1,
            produced = [], consumed = []\<rparr>"

text \<open>\<open>cv.notify_one()\<close>.\<close>

definition notify_one9 :: "state9 \<Rightarrow> state9" where
  "notify_one9 s =
     (case pc_Consumer s of
        Co_sleeping i \<Rightarrow> s\<lparr>pc_Consumer := Co_woken i\<rparr>
      | _ \<Rightarrow> s)"

text \<open>One statement of \<open>Producer\<close>.\<close>

definition Producer :: "state9 \<Rightarrow> state9" where
  "Producer s =
     (case pc_Producer s of
        Pr_for i \<Rightarrow> s\<lparr>pc_Producer := (if i \<le> SIZE9 then Pr_lock i else Pr_return)\<rparr>
      | Pr_lock i \<Rightarrow>
          (if mtx s = None then s\<lparr>mtx := Some t1, pc_Producer := Pr_push i\<rparr> else s)
      | Pr_push i \<Rightarrow>
          s\<lparr>g_data := g_data s @ [i], produced := produced s @ [i], pc_Producer := Pr_unlock i\<rparr>
      | Pr_unlock i \<Rightarrow> s\<lparr>mtx := None, pc_Producer := Pr_notify i\<rparr>
      | Pr_notify i \<Rightarrow> notify_one9 (s\<lparr>pc_Producer := Pr_for (i + 1)\<rparr>)
      | Pr_return \<Rightarrow> s)"

text \<open>One statement of \<open>Consumer\<close>.\<close>

definition Consumer :: "state9 \<Rightarrow> state9" where
  "Consumer s =
     (case pc_Consumer s of
        Co_for i \<Rightarrow> s\<lparr>pc_Consumer := (if i \<le> SIZE9 then Co_lock i else Co_return)\<rparr>
      | Co_lock i \<Rightarrow>
          (if mtx s = None then s\<lparr>mtx := Some t2, pc_Consumer := Co_wait i\<rparr> else s)
      | Co_wait i \<Rightarrow>
          (if g_data s \<noteq> [] then s\<lparr>pc_Consumer := Co_pop i\<rparr>
           else s\<lparr>mtx := None, pc_Consumer := Co_sleeping i\<rparr>)
      | Co_sleeping i \<Rightarrow> s
      | Co_woken i \<Rightarrow>
          (if mtx s = None then s\<lparr>mtx := Some t2, pc_Consumer := Co_wait i\<rparr> else s)
      | Co_pop i \<Rightarrow>
          (case g_data s of
             [] \<Rightarrow> s\<lparr>pc_Consumer := Co_undefined\<rparr>
           | item # rest \<Rightarrow> s\<lparr>g_data := rest, pc_Consumer := Co_print i item\<rparr>)
      | Co_print i item \<Rightarrow> s\<lparr>consumed := consumed s @ [item], pc_Consumer := Co_unlock i\<rparr>
      | Co_unlock i \<Rightarrow> s\<lparr>mtx := None, pc_Consumer := Co_for (i + 1)\<rparr>
      | Co_return \<Rightarrow> s
      | Co_undefined \<Rightarrow> s)"

fun step9 :: "thread9 event \<Rightarrow> state9 \<Rightarrow> state9" where
  "step9 (Run t1) s = Producer s"
| "step9 (Run t2) s = Consumer s"
| "step9 Spurious_wakeup s = notify_one9 s"

definition exec9 :: "thread9 event list \<Rightarrow> state9 \<Rightarrow> state9" where
  "exec9 sch s = fold step9 sch s"

text \<open>The consumer is inside \<open>cv.wait\<close>.\<close>

fun in_wait9 :: "Consumer_pc \<Rightarrow> bool" where
  "in_wait9 (Co_wait i) = True"
| "in_wait9 (Co_sleeping i) = True"
| "in_wait9 (Co_woken i) = True"
| "in_wait9 _ = False"

section \<open>Concurrency/5\_Thread\_mutex.cpp: two downloaders and one list\<close>

text \<open>
  Threads \<open>thDownloader\<close> and \<open>thDownloader2\<close> run \<open>Download\<close> and \<open>Download2\<close>, which
  append to the one list under the one mutex. There is no condition variable: a
  schedule is the list of the threads that run a statement.
\<close>

datatype thread5 = thDownloader | thDownloader2

datatype loop_pc =
    L_for int          \<comment> \<open>the test \<open>i < SIZE\<close>\<close>
  | L_lock int         \<comment> \<open>\<open>lock_guard\<close> acquires \<open>g_Mutex\<close>\<close>
  | L_push int         \<comment> \<open>\<open>g_Data.push_back(i)\<close>\<close>
  | L_unlock int       \<comment> \<open>the loop body ends, the guard releases, then \<open>++i\<close>\<close>
  | L_return

record state5 =
  g_Data5 :: "int list"
  g_Mutex5 :: "thread5 option"
  pc_thDownloader :: loop_pc
  pc_thDownloader2 :: loop_pc

definition SIZE5 :: int where
  "SIZE5 = 100000"

definition init5 :: state5 where
  "init5 = \<lparr>g_Data5 = [], g_Mutex5 = None,
            pc_thDownloader = L_for 0, pc_thDownloader2 = L_for 0\<rparr>"

text \<open>One statement of \<open>Download\<close> (lines 25 to 39).\<close>

definition Download5 :: "state5 \<Rightarrow> state5" where
  "Download5 s =
     (case pc_thDownloader s of
        L_for i \<Rightarrow> s\<lparr>pc_thDownloader := (if i < SIZE5 then L_lock i else L_return)\<rparr>
      | L_lock i \<Rightarrow>
          (if g_Mutex5 s = None
           then s\<lparr>g_Mutex5 := Some thDownloader, pc_thDownloader := L_push i\<rparr> else s)
      | L_push i \<Rightarrow> s\<lparr>g_Data5 := g_Data5 s @ [i], pc_thDownloader := L_unlock i\<rparr>
      | L_unlock i \<Rightarrow> s\<lparr>g_Mutex5 := None, pc_thDownloader := L_for (i + 1)\<rparr>
      | L_return \<Rightarrow> s)"

text \<open>One statement of \<open>Download2\<close> (lines 43 to 48).\<close>

definition Download2 :: "state5 \<Rightarrow> state5" where
  "Download2 s =
     (case pc_thDownloader2 s of
        L_for i \<Rightarrow> s\<lparr>pc_thDownloader2 := (if i < SIZE5 then L_lock i else L_return)\<rparr>
      | L_lock i \<Rightarrow>
          (if g_Mutex5 s = None
           then s\<lparr>g_Mutex5 := Some thDownloader2, pc_thDownloader2 := L_push i\<rparr> else s)
      | L_push i \<Rightarrow> s\<lparr>g_Data5 := g_Data5 s @ [i], pc_thDownloader2 := L_unlock i\<rparr>
      | L_unlock i \<Rightarrow> s\<lparr>g_Mutex5 := None, pc_thDownloader2 := L_for (i + 1)\<rparr>
      | L_return \<Rightarrow> s)"

fun step5 :: "thread5 \<Rightarrow> state5 \<Rightarrow> state5" where
  "step5 thDownloader s = Download5 s"
| "step5 thDownloader2 s = Download2 s"

definition exec5 :: "thread5 list \<Rightarrow> state5 \<Rightarrow> state5" where
  "exec5 sch s = fold step5 sch s"

text \<open>The number of items a downloader has appended when it stands at a program point.\<close>

fun appended :: "loop_pc \<Rightarrow> int" where
  "appended (L_for i) = i"
| "appended (L_lock i) = i"
| "appended (L_push i) = i"
| "appended (L_unlock i) = i + 1"
| "appended L_return = SIZE5"

text \<open>
  \<open>main\<close> joins both threads and prints \<open>g_Data.size()\<close>: nothing is printed before
  both have returned.
\<close>

definition main5 :: "thread5 list \<Rightarrow> nat option" where
  "main5 sch =
     (let s = exec5 sch init5 in
      if pc_thDownloader s = L_return \<and> pc_thDownloader2 s = L_return
      then Some (length (g_Data5 s)) else None)"


section \<open>Invariants of the Download/ProcessData program\<close>

text \<open>The number of items \<open>Download\<close> has pushed when it stands at a program point.\<close>

fun pcount :: "Download_pc \<Rightarrow> int" where
  "pcount (D_for i) = i"
| "pcount (D_lock i) = i"
| "pcount (D_push i) = i"
| "pcount (D_unlock i) = i + 1"
| "pcount (D_notify i) = i + 1"
| "pcount _ = SIZE"

text \<open>The loop counter is within its bounds.\<close>

fun D_wf :: "Download_pc \<Rightarrow> bool" where
  "D_wf (D_for i) = (0 \<le> i \<and> i \<le> SIZE)"
| "D_wf (D_lock i) = (0 \<le> i \<and> i < SIZE)"
| "D_wf (D_push i) = (0 \<le> i \<and> i < SIZE)"
| "D_wf (D_unlock i) = (0 \<le> i \<and> i < SIZE)"
| "D_wf (D_notify i) = (0 \<le> i \<and> i < SIZE)"
| "D_wf _ = True"

text \<open>The program points at which a thread holds \<open>g_Mutex\<close>.\<close>

fun D_holds :: "Download_pc \<Rightarrow> bool" where
  "D_holds (D_push i) = True"
| "D_holds (D_unlock i) = True"
| "D_holds D_set_fin = True"
| "D_holds D_unlock_fin = True"
| "D_holds _ = False"

fun P_holds :: "ProcessData_pc \<Rightarrow> bool" where
  "P_holds P_wait = True"
| "P_holds P_while = True"
| "P_holds P_pop = True"
| "P_holds (P_unlock v) = True"
| "P_holds P_if = True"
| "P_holds _ = False"

text \<open>The program points after the assignment to \<open>g_DownloadFinished\<close>.\<close>

fun D_finished :: "Download_pc \<Rightarrow> bool" where
  "D_finished D_unlock_fin = True"
| "D_finished D_notify_fin = True"
| "D_finished D_return = True"
| "D_finished _ = False"

text \<open>The program points from which the next notification is at most two statements away.\<close>

fun D_notifying :: "Download_pc \<Rightarrow> bool" where
  "D_notifying (D_unlock i) = True"
| "D_notifying (D_notify i) = True"
| "D_notifying D_unlock_fin = True"
| "D_notifying D_notify_fin = True"
| "D_notifying _ = False"

text \<open>What holds in every reachable state.\<close>

definition inv10 :: "state10 \<Rightarrow> bool" where
  "inv10 s =
     (D_wf (pc_Download s) \<and>
      pushed s = [0..pcount (pc_Download s) - 1] \<and>
      processed s @ in_hand s @ g_Data s = pushed s \<and>
      g_Mutex s = (if D_holds (pc_Download s) then Some producer
                   else if P_holds (pc_ProcessData s) then Some consumer else None) \<and>
      \<not> (D_holds (pc_Download s) \<and> P_holds (pc_ProcessData s)) \<and>
      g_DownloadFinished s = D_finished (pc_Download s) \<and>
      (pc_ProcessData s = P_pop \<longrightarrow> g_Data s \<noteq> []) \<and>
      pc_ProcessData s \<noteq> P_undefined \<and>
      (pc_ProcessData s = P_sleeping \<and> wait_pred s \<longrightarrow> D_notifying (pc_Download s)) \<and>
      (pc_ProcessData s = P_return \<longrightarrow> g_Data s = [] \<and> g_DownloadFinished s))"

text \<open>The consumer is inside \<open>g_CV.wait\<close>.\<close>

fun in_wait :: "ProcessData_pc \<Rightarrow> bool" where
  "in_wait P_wait = True"
| "in_wait P_sleeping = True"
| "in_wait P_woken = True"
| "in_wait _ = False"

text \<open>
  Once the flag is set and the queue is empty: the statements \<open>Download\<close> still has to
  run, and the statements \<open>ProcessData\<close> still has to run once \<open>Download\<close> has returned.
\<close>

fun Download_left :: "Download_pc \<Rightarrow> nat" where
  "Download_left D_unlock_fin = 2"
| "Download_left D_notify_fin = 1"
| "Download_left _ = 0"

fun ProcessData_left :: "ProcessData_pc \<Rightarrow> nat" where
  "ProcessData_left (P_unlock v) = 5"
| "ProcessData_left (P_process v) = 4"
| "ProcessData_left P_relock = 3"
| "ProcessData_left P_lock = 4"
| "ProcessData_left P_woken = 4"
| "ProcessData_left P_wait = 3"
| "ProcessData_left P_while = 2"
| "ProcessData_left P_if = 1"
| "ProcessData_left _ = 0"

definition closed_empty :: "state10 \<Rightarrow> bool" where
  "closed_empty s = (inv10 s \<and> g_DownloadFinished s \<and> g_Data s = [])"




text \<open>
  Two schedules of the program that run it to its end: the producer first and the
  consumer after it, and the two threads taking turns with a spurious wakeup after
  every turn.
\<close>

definition run_to_end :: "thread event list" where
  "run_to_end = replicate 60 (Run producer) @ replicate 70 (Run consumer)"

definition take_turns :: "thread event list" where
  "take_turns = concat (replicate 80 [Run consumer, Run producer, Spurious_wakeup])"

text \<open>
  Two more schedules: up to the first \<open>front()\<close> of the consumer, and up to its last
  exit test.
\<close>

definition first_pop :: "thread event list" where
  "first_pop = replicate 5 (Run producer) @ replicate 3 (Run consumer)"

definition last_test :: "thread event list" where
  "last_test = replicate 60 (Run producer) @ replicate 53 (Run consumer)"

text \<open>
  Schedules around the shutdown: the consumer has drained the queue and sleeps in the
  wait when the producer sets the flag; a consumer that starts before anything is
  pushed; wakeups with no producer step among them; and the producer up to line 39.
\<close>

definition asleep_at_close :: "thread event list" where
  "asleep_at_close =
     replicate 51 (Run producer) @ replicate 56 (Run consumer) @ replicate 2 (Run producer)"

definition early_consumer :: "thread event list" where
  "early_consumer = replicate 3 (Run consumer)"

definition wakeups_only :: "thread event list" where
  "wakeups_only = [Spurious_wakeup, Run consumer, Run consumer, Spurious_wakeup, Run consumer]"



definition before_close :: "thread event list" where
  "before_close = replicate 51 (Run producer)"

section \<open>Invariants of the Producer/Consumer program\<close>

text \<open>
  The number of items \<open>Producer\<close> has pushed, the number \<open>Consumer\<close> has taken out of
  the queue and the number it has reported, at each program point; the bounds of the
  loop counters; and the program points at which a thread holds \<open>mtx\<close>.
\<close>

fun produced_count :: "Producer_pc \<Rightarrow> int" where
  "produced_count (Pr_for i) = i - 1"
| "produced_count (Pr_lock i) = i - 1"
| "produced_count (Pr_push i) = i - 1"
| "produced_count (Pr_unlock i) = i"
| "produced_count (Pr_notify i) = i"
| "produced_count Pr_return = SIZE9"

fun Pr_wf :: "Producer_pc \<Rightarrow> bool" where
  "Pr_wf (Pr_for i) = (1 \<le> i \<and> i \<le> SIZE9 + 1)"
| "Pr_wf (Pr_lock i) = (1 \<le> i \<and> i \<le> SIZE9)"
| "Pr_wf (Pr_push i) = (1 \<le> i \<and> i \<le> SIZE9)"
| "Pr_wf (Pr_unlock i) = (1 \<le> i \<and> i \<le> SIZE9)"
| "Pr_wf (Pr_notify i) = (1 \<le> i \<and> i \<le> SIZE9)"
| "Pr_wf Pr_return = True"

fun taken_count :: "Consumer_pc \<Rightarrow> int" where
  "taken_count (Co_for i) = i - 1"
| "taken_count (Co_lock i) = i - 1"
| "taken_count (Co_wait i) = i - 1"
| "taken_count (Co_sleeping i) = i - 1"
| "taken_count (Co_woken i) = i - 1"
| "taken_count (Co_pop i) = i - 1"
| "taken_count (Co_print i item) = i"
| "taken_count (Co_unlock i) = i"
| "taken_count Co_return = SIZE9"
| "taken_count Co_undefined = 0"

fun consumed_count :: "Consumer_pc \<Rightarrow> int" where
  "consumed_count (Co_print i item) = i - 1"
| "consumed_count pc = taken_count pc"

fun Co_wf :: "Consumer_pc \<Rightarrow> bool" where
  "Co_wf (Co_for i) = (1 \<le> i \<and> i \<le> SIZE9 + 1)"
| "Co_wf (Co_lock i) = (1 \<le> i \<and> i \<le> SIZE9)"
| "Co_wf (Co_wait i) = (1 \<le> i \<and> i \<le> SIZE9)"
| "Co_wf (Co_sleeping i) = (1 \<le> i \<and> i \<le> SIZE9)"
| "Co_wf (Co_woken i) = (1 \<le> i \<and> i \<le> SIZE9)"
| "Co_wf (Co_pop i) = (1 \<le> i \<and> i \<le> SIZE9)"
| "Co_wf (Co_print i item) = (1 \<le> i \<and> i \<le> SIZE9 \<and> item = i)"
| "Co_wf (Co_unlock i) = (1 \<le> i \<and> i \<le> SIZE9)"
| "Co_wf Co_return = True"
| "Co_wf Co_undefined = False"

fun Pr_holds :: "Producer_pc \<Rightarrow> bool" where
  "Pr_holds (Pr_push i) = True"
| "Pr_holds (Pr_unlock i) = True"
| "Pr_holds _ = False"

fun Co_holds :: "Consumer_pc \<Rightarrow> bool" where
  "Co_holds (Co_wait i) = True"
| "Co_holds (Co_pop i) = True"
| "Co_holds (Co_print i item) = True"
| "Co_holds (Co_unlock i) = True"
| "Co_holds _ = False"

text \<open>What holds in every reachable state.\<close>

definition inv9 :: "state9 \<Rightarrow> bool" where
  "inv9 s =
     (Pr_wf (pc_Producer s) \<and> Co_wf (pc_Consumer s) \<and>
      produced s = [1..produced_count (pc_Producer s)] \<and>
      consumed s = [1..consumed_count (pc_Consumer s)] \<and>
      g_data s = [taken_count (pc_Consumer s) + 1..produced_count (pc_Producer s)] \<and>
      taken_count (pc_Consumer s) \<le> produced_count (pc_Producer s) \<and>
      mtx s = (if Pr_holds (pc_Producer s) then Some t1
               else if Co_holds (pc_Consumer s) then Some t2 else None) \<and>
      \<not> (Pr_holds (pc_Producer s) \<and> Co_holds (pc_Consumer s)) \<and>
      (case pc_Consumer s of Co_pop i \<Rightarrow> g_data s \<noteq> [] | _ \<Rightarrow> True))"


definition early_Consumer :: "thread9 event list" where
  "early_Consumer = replicate 4 (Run t2)"

definition wakeups_only9 :: "thread9 event list" where
  "wakeups_only9 = [Spurious_wakeup, Run t2, Run t2, Spurious_wakeup, Run t2]"

section \<open>Invariants of the two downloaders\<close>

text \<open>
  The bounds of the loop counter, the program points at which a downloader holds
  \<open>g_Mutex\<close>, and how often a value occurs among the first \<open>n\<close> items \<open>0 .. n - 1\<close> that
  one downloader appends.
\<close>

fun L_wf :: "loop_pc \<Rightarrow> bool" where
  "L_wf (L_for i) = (0 \<le> i \<and> i \<le> SIZE5)"
| "L_wf (L_lock i) = (0 \<le> i \<and> i < SIZE5)"
| "L_wf (L_push i) = (0 \<le> i \<and> i < SIZE5)"
| "L_wf (L_unlock i) = (0 \<le> i \<and> i < SIZE5)"
| "L_wf L_return = True"

fun L_holds :: "loop_pc \<Rightarrow> bool" where
  "L_holds (L_push i) = True"
| "L_holds (L_unlock i) = True"
| "L_holds _ = False"

definition occurrences :: "int \<Rightarrow> int \<Rightarrow> nat" where
  "occurrences n k = (if 0 \<le> k \<and> k < n then 1 else 0)"

text \<open>What holds in every reachable state.\<close>

definition inv5 :: "state5 \<Rightarrow> bool" where
  "inv5 s =
     (L_wf (pc_thDownloader s) \<and> L_wf (pc_thDownloader2 s) \<and>
      int (length (g_Data5 s)) = appended (pc_thDownloader s) + appended (pc_thDownloader2 s) \<and>
      (\<forall>k. count_list (g_Data5 s) k =
            occurrences (appended (pc_thDownloader s)) k +
            occurrences (appended (pc_thDownloader2 s)) k) \<and>
      g_Mutex5 s = (if L_holds (pc_thDownloader s) then Some thDownloader
                    else if L_holds (pc_thDownloader2 s) then Some thDownloader2 else None) \<and>
      \<not> (L_holds (pc_thDownloader s) \<and> L_holds (pc_thDownloader2 s)))"

text \<open>A schedule that runs \<open>Download\<close> to its end and \<open>Download2\<close> after it.\<close>

definition one_after_the_other :: "thread5 list" where
  "one_after_the_other =
     replicate (4 * nat SIZE5 + 1) thDownloader @ replicate (4 * nat SIZE5 + 1) thDownloader2"


section \<open>Verification of the promise/future demo\<close>

lemma Operation_loop_sum:
  "0 \<le> sint i \<Longrightarrow> sint i \<le> sint count \<Longrightarrow>
   Operation_loop count i sm = sm + of_nat (\<Sum>k = nat (sint i)..<nat (sint count). k)"
proof (induction count i sm rule: Operation_loop.induct)
  case (1 count i sm)
  show ?case
  proof (cases "sint i < sint count")
    case True
    have s: "sint (i + 1) = sint i + 1" using True by (rule sint_succ_below)
    have lt: "nat (sint i) < nat (sint count)" using True "1.prems" by simp
    have n: "nat (sint (i + 1)) = Suc (nat (sint i))" using "1.prems" s by simp
    have w: "i = of_nat (nat (sint i))" using "1.prems" by simp
    have "Operation_loop count i sm = Operation_loop count (i + 1) (sm + i)"
      using True by (subst Operation_loop.simps) simp
    also have "\<dots> = sm + i + of_nat (\<Sum>k = Suc (nat (sint i))..<nat (sint count). k)"
      using "1.IH" [OF True] True "1.prems" s n by simp
    also have "\<dots> = sm + of_nat (nat (sint i)) + of_nat (\<Sum>k = Suc (nat (sint i))..<nat (sint count). k)"
      using w by simp
    also have "\<dots> = sm + of_nat (\<Sum>k = nat (sint i)..<nat (sint count). k)"
      using lt by (simp add: sum.atLeast_Suc_lessThan)
    finally show ?thesis .
  next
    case False
    then have "sint i = sint count" using "1.prems" by simp
    then show ?thesis by (subst Operation_loop.simps) simp
  qed
qed

lemma Operation_loop_neg: "sint count \<le> 0 \<Longrightarrow> Operation_loop count 0 0 = 0"
  by (subst Operation_loop.simps) simp

lemma Operation_loop_closed:
  "0 \<le> sint count \<Longrightarrow>
   Operation_loop count 0 0 = of_nat (nat (sint count) * (nat (sint count) - 1) div 2)"
  using Operation_loop_sum [of 0 count 0] by (simp add: Sum_Ico_nat)


lemma Operation_Value:
  "future data = Not_retrieved \<Longrightarrow> shared data = Value count \<Longrightarrow>
   Operation data = (Returned (Operation_loop count 0 0), data\<lparr>future := Spent\<rparr>)"
  by (simp add: Operation_def get_future_def future_get_def)

lemma Operation_Error:
  "future data = Not_retrieved \<Longrightarrow> shared data = Error ex \<Longrightarrow>
   Operation data =
     (if catches_std_exception ex then Returned (- 1) else Raised ex, data\<lparr>future := Spent\<rparr>)"
  by (simp add: Operation_def get_future_def future_get_def)

lemma Operation_again:
  "future data \<noteq> Not_retrieved \<Longrightarrow> Operation data = (Raised Future_error, data)"
  by (cases "future data") (simp_all add: Operation_def get_future_def)

lemma set_value_get_future:
  "set_value v p = Inr p' \<Longrightarrow> get_future p = Inr f \<Longrightarrow>
   get_future p' = Inr (f\<lparr>shared := Value v\<rparr>) \<and> set_value v f = Inr (f\<lparr>shared := Value v\<rparr>)"
  by (cases "shared p"; cases "future p") (auto simp: set_value_def get_future_def)

lemma sint_small_sum:
  fixes count :: cint
  assumes "0 \<le> sint count" "sint count \<le> 65536"
  shows "sint (Operation_loop count 0 0) = sint count * (sint count - 1) div 2"
proof -
  define n where "n = nat (sint count)"
  have n: "n \<le> 65536" "sint count = int n" using assms by (simp_all add: n_def)
  have "n * (n - 1) \<le> 65536 * 65535" using n(1) by (intro mult_le_mono) simp_all
  then have b: "n * (n - 1) div 2 < 2 ^ 31" by simp
  have "sint (of_nat (n * (n - 1) div 2) :: cint) = int (n * (n - 1) div 2)"
  proof -
    have g: "sint (word_of_int k :: cint) = signed_take_bit 31 k" for k
      by (simp add: sint_sbintrunc')
    have "sint (of_nat (n * (n - 1) div 2) :: cint) = signed_take_bit 31 (int (n * (n - 1) div 2))"
      using g [of "int (n * (n - 1) div 2)"] by simp
    also have "\<dots> = int (n * (n - 1) div 2)"
      using b by (intro signed_take_bit_int_eq_self) simp_all
    finally show ?thesis .
  qed
  moreover have "int (n * (n - 1) div 2) = int n * (int n - 1) div 2"
    by (cases n) (simp_all add: zdiv_int algebra_simps)
  moreover have "Operation_loop count 0 0 = of_nat (n * (n - 1) div 2)"
    unfolding n_def by (rule Operation_loop_closed [OF assms(1)])
  ultimately show ?thesis
    by (simp only: n(2))
qed


text \<open>
  Claim C9, as amended. \<open>Operation\<close> returns \<open>0 + 1 + ... + (count - 1)\<close>, that is
  \<open>count * (count - 1) / 2\<close>, for every count from 0 to 65536 that it receives through
  the future (for a count below 1 the loop body never runs and the result is 0), and
  with \<open>main\<close> setting the value 10 the sum that \<open>main\<close> retrieves is 45. Beyond 65536
  the sum no longer fits the 32-bit \<open>int\<close> it is accumulated in.
\<close>

theorem Operation_sum:
  "(future data = Not_retrieved \<and> shared data = Value count \<and>
    0 \<le> sint count \<and> sint count \<le> 65536 \<longrightarrow>
      fst (Operation data) = Returned (Operation_loop count 0 0) \<and>
      sint (Operation_loop count 0 0) = sint count * (sint count - 1) div 2) \<and>
   (future data = Not_retrieved \<and> shared data = Value count \<and> sint count \<le> 0 \<longrightarrow>
      fst (Operation data) = Returned 0) \<and>
   main_promise = Some 45"
proof -
  have "main_promise = Some 45"
    using Operation_loop_closed [of 10]
    by (simp add: main_promise_def set_value_def new_promise_def Operation_Value)
  then show ?thesis
    by (simp add: Operation_Value sint_small_sum Operation_loop_neg)
qed

theorem Operation_sum_witness:
  "fst (Operation (new_promise\<lparr>shared := Value 4\<rparr>)) = Returned 6 \<and>
   sint (6 :: cint) = 4 * (4 - 1) div 2 \<and>
   fst (Operation (new_promise\<lparr>shared := Value (- 3)\<rparr>)) = Returned 0 \<and>
   main_promise = Some 45"
proof -
  have l: "Operation_loop 4 0 0 = 6" using Operation_loop_closed [of 4] by simp
  show ?thesis
    using Operation_sum [of "new_promise\<lparr>shared := Value 4\<rparr>" 4]
      Operation_sum [of "new_promise\<lparr>shared := Value (- 3)\<rparr>" "- 3"] l
    by (simp add: new_promise_def)
qed

text \<open>
  The claim as stated, for every non-negative count, fails at \<open>count = 65537\<close>: the
  mathematical sum is 2147516416, which is not an \<open>int\<close>; the wrapped 32-bit sum that
  \<open>Operation\<close> returns is \<open>-2147450880\<close>.
\<close>

theorem Operation_sum_overflow:
  "fst (Operation (new_promise\<lparr>shared := Value 65537\<rparr>)) = Returned (- 2147450880) \<and>
   sint (- 2147450880 :: cint) = - 2147450880 \<and>
   sint (65537 :: cint) * (sint (65537 :: cint) - 1) div 2 = 2147516416"
  using Operation_loop_closed [of 65537] by (simp add: Operation_Value new_promise_def)

text \<open>
  Claim C7. On the one-shot channel, an error set by the producing side is what the next
  retrieval raises: \<open>Operation\<close>, whose \<open>f.get()\<close> is that retrieval, ends in its handler
  and returns \<open>-1\<close> when the handler catches the error, and lets it escape otherwise.
  Retrieval is usable exactly once. A retrieval that delivered the value or the error
  spends the future. On a channel whose future is spent no operation delivers again,
  and none makes the future usable again: \<open>get\<close> yields no value, \<open>get_future\<close> hands
  out no second future (so a second \<open>Operation\<close> on the same promise fails at line 18),
  and the cell cannot be completed a second time.
\<close>

theorem error_observed_and_single_use:
  "set_exception ex (new_promise :: cint promise) = Inr (new_promise\<lparr>shared := Error ex\<rparr>) \<and>
   (future data = Held \<and> shared data = Error ex \<longrightarrow>
      future_get data = (Raised ex, data\<lparr>future := Spent\<rparr>)) \<and>
   (future data = Held \<and> shared data = Value v \<longrightarrow>
      future_get data = (Returned v, data\<lparr>future := Spent\<rparr>)) \<and>
   (future data = Not_retrieved \<and> shared data = Error ex \<longrightarrow>
      Operation data =
        (if catches_std_exception ex then Returned (- 1) else Raised ex,
         data\<lparr>future := Spent\<rparr>)) \<and>
   (future data = Not_retrieved \<and> shared data = Value v \<longrightarrow>
      future (snd (Operation data)) = Spent) \<and>
   (future data = Spent \<longrightarrow>
      future_get data = (Raised Future_error, data) \<and>
      get_future data = Inl Future_error \<and>
      Operation data = (Raised Future_error, data) \<and>
      \<not> valid data) \<and>
   (future data = Held \<longrightarrow> get_future data = Inl Future_error) \<and>
   (shared data \<noteq> Empty \<longrightarrow>
      set_value v data = Inl Future_error \<and> set_exception ex data = Inl Future_error) \<and>
   (shared data = Empty \<longrightarrow>
      set_value v data = Inr (data\<lparr>shared := Value v\<rparr>) \<and>
      set_exception ex data = Inr (data\<lparr>shared := Error ex\<rparr>))"
proof -
  have 1: "set_exception ex (new_promise :: cint promise) = Inr (new_promise\<lparr>shared := Error ex\<rparr>)"
    by (simp add: set_exception_def new_promise_def)
  have 2: "future data = Held \<and> shared data = Error ex \<longrightarrow>
      future_get data = (Raised ex, data\<lparr>future := Spent\<rparr>)"
    by (simp add: future_get_def)
  have 3: "future data = Held \<and> shared data = Value v \<longrightarrow>
      future_get data = (Returned v, data\<lparr>future := Spent\<rparr>)"
    by (simp add: future_get_def)
  have 4: "future data = Not_retrieved \<and> shared data = Error ex \<longrightarrow>
      Operation data =
        (if catches_std_exception ex then Returned (- 1) else Raised ex,
         data\<lparr>future := Spent\<rparr>)"
    using Operation_Error by blast
  have 5: "future data = Not_retrieved \<and> shared data = Value v \<longrightarrow>
      future (snd (Operation data)) = Spent"
    by (simp add: Operation_Value)
  have 6: "future data = Spent \<longrightarrow>
      future_get data = (Raised Future_error, data) \<and>
      get_future data = Inl Future_error \<and>
      Operation data = (Raised Future_error, data) \<and>
      \<not> valid data"
    by (simp add: future_get_def get_future_def Operation_again valid_def)
  have 7: "future data = Held \<longrightarrow> get_future data = Inl Future_error"
    by (simp add: get_future_def)
  have 8: "shared data \<noteq> Empty \<longrightarrow>
      set_value v data = Inl Future_error \<and> set_exception ex data = Inl Future_error"
    by (cases "shared data") (simp_all add: set_value_def set_exception_def)
  have 9: "shared data = Empty \<longrightarrow>
      set_value v data = Inr (data\<lparr>shared := Value v\<rparr>) \<and>
      set_exception ex data = Inr (data\<lparr>shared := Error ex\<rparr>)"
    by (simp add: set_value_def set_exception_def)
  show ?thesis
    by (intro conjI; (rule 1 | rule 2 | rule 3 | rule 4 | rule 5 | rule 6 | rule 7
          | rule 8 | rule 9))
qed

theorem error_observed_and_single_use_witness:
  "fst (Operation (new_promise\<lparr>shared := Error Std_exception\<rparr>)) = Returned (- 1) \<and>
   fst (Operation (new_promise\<lparr>shared := Error Non_std\<rparr>)) = Raised Non_std \<and>
   fst (Operation (snd (Operation (new_promise\<lparr>shared := Value 10\<rparr>)))) = Raised Future_error \<and>
   get_future (snd (Operation (new_promise\<lparr>shared := Value 10\<rparr>))) = Inl Future_error \<and>
   fst (future_get (snd (Operation (new_promise\<lparr>shared := Value 10\<rparr>)))) = Raised Future_error"
proof -
  let ?e = "new_promise\<lparr>shared := Error Std_exception\<rparr> :: cint promise"
  let ?n = "new_promise\<lparr>shared := Error Non_std\<rparr> :: cint promise"
  let ?v = "new_promise\<lparr>shared := Value 10\<rparr> :: cint promise"
  have e: "future ?e = Not_retrieved \<and> shared ?e = Error Std_exception"
    and n: "future ?n = Not_retrieved \<and> shared ?n = Error Non_std"
    and v: "future ?v = Not_retrieved \<and> shared ?v = Value 10"
    by (simp_all add: new_promise_def)
  note a = error_observed_and_single_use [of Std_exception ?e 10]
  note b = error_observed_and_single_use [of Non_std ?n 10]
  note c = error_observed_and_single_use [of Std_exception ?v 10]
  note d = error_observed_and_single_use [of Std_exception "snd (Operation ?v)" 10]
  have 1: "fst (Operation ?e) = Returned (- 1)"
    using a [THEN conjunct2, THEN conjunct2, THEN conjunct2, THEN conjunct1, THEN mp, OF e]
    by simp
  have 2: "fst (Operation ?n) = Raised Non_std"
    using b [THEN conjunct2, THEN conjunct2, THEN conjunct2, THEN conjunct1, THEN mp, OF n]
    by simp
  have s: "future (snd (Operation ?v)) = Spent"
    using c [THEN conjunct2, THEN conjunct2, THEN conjunct2, THEN conjunct2, THEN conjunct1,
        THEN mp, OF v] .
  note t = d [THEN conjunct2, THEN conjunct2, THEN conjunct2, THEN conjunct2, THEN conjunct2,
      THEN conjunct1, THEN mp, OF s]
  show ?thesis using 1 2 t by simp
qed

section \<open>Verification of the Download/ProcessData program\<close>

lemma inv10_init: "inv10 init10"
  by (simp add: inv10_def init10_def in_hand_def wait_pred_def SIZE_def)

lemma inv10_Download: "inv10 s \<Longrightarrow> inv10 (Download s)"
  unfolding inv10_def Download_def
  by (cases "pc_Download s"; cases "pc_ProcessData s")
     (auto simp: notify_one_def wait_pred_def in_hand_def upto_rec2 SIZE_def)

lemma inv10_ProcessData: "inv10 s \<Longrightarrow> inv10 (ProcessData s)"
  unfolding inv10_def ProcessData_def
  by (cases "pc_Download s"; cases "pc_ProcessData s"; cases "g_Data s")
     (auto simp: notify_one_def wait_pred_def in_hand_def)

lemma inv10_notify: "inv10 s \<Longrightarrow> inv10 (notify_one s)"
  unfolding inv10_def 
  by (cases "pc_Download s"; cases "pc_ProcessData s")
     (auto simp: notify_one_def wait_pred_def in_hand_def)


lemma event_cases:
  fixes e :: "thread event"
  obtains "e = Run producer" | "e = Run consumer" | "e = Spurious_wakeup"
proof (cases e)
  case (Run t)
  then show ?thesis using that by (cases t) simp_all
next
  case Spurious_wakeup
  then show ?thesis using that by simp
qed

lemma inv10_step: "inv10 s \<Longrightarrow> inv10 (step10 e s)"
proof (cases e)
  case (Run t)
  then show "inv10 s \<Longrightarrow> inv10 (step10 e s)"
    by (cases t) (simp_all add: inv10_Download inv10_ProcessData)
next
  case Spurious_wakeup
  then show "inv10 s \<Longrightarrow> inv10 (step10 e s)" by (simp add: inv10_notify)
qed

lemma exec10_Nil [simp]: "exec10 [] s = s"
  by (simp add: exec10_def)

lemma exec10_Cons [simp]: "exec10 (e # sch) s = exec10 sch (step10 e s)"
  by (simp add: exec10_def)

lemma exec10_append: "exec10 (a @ b) s = exec10 b (exec10 a s)"
  by (simp add: exec10_def)

lemma inv10_exec: "inv10 s \<Longrightarrow> inv10 (exec10 sch s)"
  by (induction sch arbitrary: s) (simp_all add: inv10_step)

lemma inv10_reachable: "inv10 (exec10 sch init10)"
  by (simp add: inv10_exec inv10_init)

lemma closed_empty_step: "closed_empty s \<Longrightarrow> closed_empty (step10 e s)"
proof -
  assume a: "closed_empty s"
  then have i: "inv10 (step10 e s)" by (simp add: closed_empty_def inv10_step)
  have "g_DownloadFinished (step10 e s) \<and> g_Data (step10 e s) = []"
    using a unfolding closed_empty_def inv10_def
    by (cases e rule: event_cases; cases "pc_Download s"; cases "pc_ProcessData s")
       (auto simp: Download_def ProcessData_def notify_one_def wait_pred_def)
  with i show ?thesis by (simp add: closed_empty_def)
qed

lemma closed_empty_exec: "closed_empty s \<Longrightarrow> closed_empty (exec10 sch s)"
  by (induction sch arbitrary: s) (simp_all add: closed_empty_step)

lemma Download_left_step:
  "closed_empty s \<Longrightarrow>
   Download_left (pc_Download (step10 e s)) = (if e = Run producer then Download_left (pc_Download s) - 1 else Download_left (pc_Download s))"
  unfolding closed_empty_def inv10_def
  by (cases e rule: event_cases; cases "pc_Download s")
     (auto simp: Download_def ProcessData_def notify_one_def split: ProcessData_pc.splits list.splits)

lemma producer_returns:
  "closed_empty s \<Longrightarrow> Download_left (pc_Download s) \<le> count_list a (Run producer) \<Longrightarrow>
   Download_left (pc_Download (exec10 a s)) = 0"
proof (induction a arbitrary: s)
  case Nil
  then show ?case by simp
next
  case (Cons e a)
  have "Download_left (pc_Download (step10 e s)) \<le> count_list a (Run producer)"
    using Cons.prems by (simp add: Download_left_step split: if_splits)
  then show ?case using Cons.IH [OF closed_empty_step [OF Cons.prems(1)]] by simp
qed

lemma Download_left_stays: "closed_empty s \<Longrightarrow> Download_left (pc_Download s) = 0 \<Longrightarrow> Download_left (pc_Download (step10 e s)) = 0"
  by (simp add: Download_left_step)

lemma ProcessData_left_step:
  "closed_empty s \<Longrightarrow> Download_left (pc_Download s) = 0 \<Longrightarrow>
   ProcessData_left (pc_ProcessData (step10 e s)) = (if e = Run consumer then ProcessData_left (pc_ProcessData s) - 1 else ProcessData_left (pc_ProcessData s))"
  unfolding closed_empty_def inv10_def
  by (cases e rule: event_cases; cases "pc_Download s"; cases "pc_ProcessData s")
     (auto simp: Download_def ProcessData_def notify_one_def wait_pred_def)

lemma consumer_returns:
  "closed_empty s \<Longrightarrow> Download_left (pc_Download s) = 0 \<Longrightarrow>
   ProcessData_left (pc_ProcessData s) \<le> count_list b (Run consumer) \<Longrightarrow>
   ProcessData_left (pc_ProcessData (exec10 b s)) = 0"
proof (induction b arbitrary: s)
  case Nil
  then show ?case by simp
next
  case (Cons e b)
  have "ProcessData_left (pc_ProcessData (step10 e s)) \<le> count_list b (Run consumer)"
    using Cons.prems by (simp add: ProcessData_left_step split: if_splits)
  then show ?case
    using Cons.IH [OF closed_empty_step [OF Cons.prems(1)] Download_left_stays [OF Cons.prems(1,2)]] by simp
qed

lemma ProcessData_left_le: "ProcessData_left pc \<le> 5"
  by (cases pc) simp_all

lemma Download_left_le: "Download_left pc \<le> 2"
  by (cases pc) simp_all

lemma ProcessData_left_0: "closed_empty s \<Longrightarrow> ProcessData_left (pc_ProcessData s) = 0 \<Longrightarrow> Download_left (pc_Download s) = 0 \<Longrightarrow> pc_ProcessData s = P_return"
  unfolding closed_empty_def inv10_def
  by (cases "pc_Download s"; cases "pc_ProcessData s") (auto simp: wait_pred_def)


lemma upto_SIZE: "[0..SIZE - 1] = [0, 1, 2, 3, 4, 5, 6, 7, 8, 9]"
  by (simp add: SIZE_def upto_rec1)

lemma fifo_step:
  "processed s @ in_hand s @ g_Data s = pushed s \<Longrightarrow>
   processed (step10 e s) @ in_hand (step10 e s) @ g_Data (step10 e s) = pushed (step10 e s)"
  by (cases e rule: event_cases; cases "pc_Download s"; cases "pc_ProcessData s"; cases "g_Data s")
     (auto simp: Download_def ProcessData_def notify_one_def in_hand_def)

lemma fifo_exec:
  "processed s @ in_hand s @ g_Data s = pushed s \<Longrightarrow>
   processed (exec10 sch s) @ in_hand (exec10 sch s) @ g_Data (exec10 sch s) = pushed (exec10 sch s)"
  by (induction sch arbitrary: s) (simp_all add: fifo_step)

lemma run_to_end_state:
  "exec10 run_to_end init10 =
     \<lparr>g_Data = [], g_DownloadFinished = True, g_Mutex = None,
      pc_Download = D_return, pc_ProcessData = P_return,
      pushed = [0, 1, 2, 3, 4, 5, 6, 7, 8, 9], processed = [0, 1, 2, 3, 4, 5, 6, 7, 8, 9]\<rparr>"
  unfolding run_to_end_def by code_simp

lemma take_turns_state:
  "exec10 take_turns init10 =
     \<lparr>g_Data = [], g_DownloadFinished = True, g_Mutex = None,
      pc_Download = D_return, pc_ProcessData = P_return,
      pushed = [0, 1, 2, 3, 4, 5, 6, 7, 8, 9], processed = [0, 1, 2, 3, 4, 5, 6, 7, 8, 9]\<rparr>"
  unfolding take_turns_def by code_simp

text \<open>
  Claim C1. The consumer obtains the items in the order in which the producer pushed
  them, with no loss, no duplication and no reordering. In every state of every
  execution the pushed sequence is the processed sequence, followed by the item the
  consumer holds, followed by the queue; so the i-th processed item is the i-th pushed
  item, and when the consumer has returned, the two sequences are equal. The relation is
  kept by every step from any state in which it holds, whatever the items are.
\<close>

theorem fifo_order:
  "(processed s @ in_hand s @ g_Data s = pushed s \<longrightarrow>
      processed (exec10 sch s) @ in_hand (exec10 sch s) @ g_Data (exec10 sch s)
        = pushed (exec10 sch s)) \<and>
   processed (exec10 sch init10) @ in_hand (exec10 sch init10) @ g_Data (exec10 sch init10)
     = pushed (exec10 sch init10) \<and>
   take (length (processed (exec10 sch init10))) (pushed (exec10 sch init10))
     = processed (exec10 sch init10) \<and>
   (pc_ProcessData (exec10 sch init10) = P_return \<longrightarrow>
      processed (exec10 sch init10) = pushed (exec10 sch init10))"
proof -
  let ?s = "exec10 sch init10"
  have i: "inv10 ?s" by (rule inv10_reachable)
  then have f: "processed ?s @ in_hand ?s @ g_Data ?s = pushed ?s"
    by (simp add: inv10_def)
  have t: "take (length (processed ?s)) (pushed ?s) = processed ?s"
    by (subst f [symmetric]) simp
  have r: "processed ?s = pushed ?s" if "pc_ProcessData ?s = P_return"
    using i f that by (simp add: inv10_def in_hand_def)
  show ?thesis using f t r by (simp add: fifo_exec)
qed

theorem fifo_order_witness:
  "processed init10 @ in_hand init10 @ g_Data init10 = pushed init10 \<and>
   pc_ProcessData (exec10 run_to_end init10) = P_return \<and>
   processed (exec10 run_to_end init10) = [0, 1, 2, 3, 4, 5, 6, 7, 8, 9] \<and>
   pushed (exec10 run_to_end init10) = [0, 1, 2, 3, 4, 5, 6, 7, 8, 9]"
proof -
  have a: "processed init10 @ in_hand init10 @ g_Data init10 = pushed init10"
    by (simp add: init10_def in_hand_def)
  show ?thesis
    using a fifo_order [of init10 run_to_end] by (simp add: run_to_end_state)
qed

text \<open>
  Claim C10. \<open>g_DownloadFinished\<close> is true only after all ten items, 0 to 9, have been
  pushed. So the consumer's terminal condition, flag set and queue empty, holds only
  after each of them has been delivered: the items processed and the one the consumer
  holds are then 0 to 9 in that order; and when \<open>ProcessData\<close> has returned, the flag
  is set, the queue is empty and the processed items are 0 to 9 in that order.
\<close>

theorem finished_after_all_pushed:
  "(g_DownloadFinished (exec10 sch init10) \<longrightarrow>
      pushed (exec10 sch init10) = [0, 1, 2, 3, 4, 5, 6, 7, 8, 9]) \<and>
   (g_DownloadFinished (exec10 sch init10) \<and> g_Data (exec10 sch init10) = [] \<longrightarrow>
      processed (exec10 sch init10) @ in_hand (exec10 sch init10)
        = [0, 1, 2, 3, 4, 5, 6, 7, 8, 9]) \<and>
   (pc_ProcessData (exec10 sch init10) = P_return \<longrightarrow>
      g_DownloadFinished (exec10 sch init10) \<and> g_Data (exec10 sch init10) = [] \<and>
      processed (exec10 sch init10) = [0, 1, 2, 3, 4, 5, 6, 7, 8, 9])"
proof -
  let ?s = "exec10 sch init10"
  have i: "inv10 ?s" by (rule inv10_reachable)
  have p: "pushed ?s = [0, 1, 2, 3, 4, 5, 6, 7, 8, 9]" if "g_DownloadFinished ?s"
  proof -
    have "pcount (pc_Download ?s) = SIZE"
      using i that by (cases "pc_Download ?s") (simp_all add: inv10_def)
    then show ?thesis using i by (simp add: inv10_def upto_SIZE)
  qed
  have f: "processed ?s @ in_hand ?s @ g_Data ?s = pushed ?s"
    using i by (simp add: inv10_def)
  have d: "processed ?s @ in_hand ?s = [0, 1, 2, 3, 4, 5, 6, 7, 8, 9]"
    if "g_DownloadFinished ?s \<and> g_Data ?s = []"
    using f p that by simp
  have r: "g_DownloadFinished ?s \<and> g_Data ?s = [] \<and> processed ?s = pushed ?s"
    if "pc_ProcessData ?s = P_return"
    using i that by (auto simp: inv10_def in_hand_def)
  have r': "g_DownloadFinished ?s \<and> g_Data ?s = [] \<and>
      processed ?s = [0, 1, 2, 3, 4, 5, 6, 7, 8, 9]"
    if "pc_ProcessData ?s = P_return"
    using r [OF that] p by simp
  show ?thesis
    by (intro conjI impI) (use p d r' in blast)+
qed

theorem finished_after_all_pushed_witness:
  "g_DownloadFinished (exec10 take_turns init10) \<and>
   pc_ProcessData (exec10 take_turns init10) = P_return \<and>
   g_Data (exec10 take_turns init10) = [] \<and>
   pushed (exec10 take_turns init10) = [0, 1, 2, 3, 4, 5, 6, 7, 8, 9] \<and>
   processed (exec10 take_turns init10) = [0, 1, 2, 3, 4, 5, 6, 7, 8, 9]"
proof -
  have a: "g_DownloadFinished (exec10 take_turns init10)"
    and b: "pc_ProcessData (exec10 take_turns init10) = P_return"
    by (simp_all add: take_turns_state)
  note t = finished_after_all_pushed [of take_turns]
  note t1 = t [THEN conjunct1, THEN mp, OF a]
  note t3 = t [THEN conjunct2, THEN conjunct2, THEN mp, OF b]
  show ?thesis using a b t1 t3 by simp
qed

lemma first_pop_state:
  "exec10 first_pop init10 =
     \<lparr>g_Data = [0], g_DownloadFinished = False, g_Mutex = Some consumer,
      pc_Download = D_for 1, pc_ProcessData = P_pop, pushed = [0], processed = []\<rparr>"
  unfolding first_pop_def by code_simp

lemma last_test_state:
  "exec10 last_test init10 =
     \<lparr>g_Data = [], g_DownloadFinished = True, g_Mutex = Some consumer,
      pc_Download = D_return, pc_ProcessData = P_if,
      pushed = [0, 1, 2, 3, 4, 5, 6, 7, 8, 9], processed = [0, 1, 2, 3, 4, 5, 6, 7, 8, 9]\<rparr>"
  unfolding last_test_def by code_simp

lemma inv10_pushed_all:
  "inv10 s \<Longrightarrow> g_DownloadFinished s \<Longrightarrow> pushed s = [0, 1, 2, 3, 4, 5, 6, 7, 8, 9]"
proof -
  assume i: "inv10 s" and f: "g_DownloadFinished s"
  then have "pcount (pc_Download s) = SIZE"
    by (cases "pc_Download s") (simp_all add: inv10_def)
  then show ?thesis using i by (simp add: inv10_def upto_SIZE)
qed

lemma Download_keeps_locked:
  "inv10 s \<Longrightarrow> P_holds (pc_ProcessData s) \<Longrightarrow>
   g_Data (Download s) = g_Data s \<and> g_DownloadFinished (Download s) = g_DownloadFinished s"
  unfolding inv10_def Download_def
  by (cases "pc_Download s"; cases "pc_ProcessData s") (auto simp: notify_one_def)

lemma ProcessData_return:
  "inv10 s \<Longrightarrow> pc_ProcessData (ProcessData s) = P_return \<Longrightarrow>
   g_DownloadFinished s \<and> g_Data s = []"
  unfolding inv10_def ProcessData_def
  by (cases "pc_ProcessData s"; cases "g_Data s") (auto simp: wait_pred_def split: if_splits)

lemma ProcessData_data:
  "pc_ProcessData s \<noteq> P_pop \<Longrightarrow> g_Data (ProcessData s) = g_Data s"
  unfolding ProcessData_def
  by (cases "pc_ProcessData s") simp_all

text \<open>
  Claim C2. What \<open>pop()\<close> is in \<open>ProcessData\<close>: the wait at line 55, then either the
  removal of the head at lines 59 to 61 or the exit at lines 67 and 68. In every
  reachable state: the wait lets the consumer pass exactly when the queue is non-empty
  or the flag is set, and suspends it otherwise; with a non-empty queue the consumer
  goes on to take the head, which leaves the tail in the queue (and the queue it takes
  from is never empty); with an empty queue it reaches the exit test, which makes it
  return exactly when the flag is set and the queue is empty. No other statement of the
  consumer changes the queue, the consumer returns in no other state, and while the
  consumer holds the lock no statement of the producer changes the queue or the flag.
\<close>

theorem pop_outcomes:
  "(pc_ProcessData (exec10 sch init10) = P_wait \<longrightarrow>
      pc_ProcessData (ProcessData (exec10 sch init10)) =
        (if g_Data (exec10 sch init10) \<noteq> [] \<or> g_DownloadFinished (exec10 sch init10)
         then P_while else P_sleeping)) \<and>
   (pc_ProcessData (exec10 sch init10) = P_while \<longrightarrow>
      pc_ProcessData (ProcessData (exec10 sch init10)) =
        (if g_Data (exec10 sch init10) \<noteq> [] then P_pop else P_if)) \<and>
   (pc_ProcessData (exec10 sch init10) = P_pop \<longrightarrow>
      g_Data (exec10 sch init10) \<noteq> [] \<and>
      pc_ProcessData (ProcessData (exec10 sch init10)) = P_unlock (hd (g_Data (exec10 sch init10))) \<and>
      g_Data (ProcessData (exec10 sch init10)) = tl (g_Data (exec10 sch init10))) \<and>
   (pc_ProcessData (exec10 sch init10) = P_if \<longrightarrow>
      pc_ProcessData (ProcessData (exec10 sch init10)) =
        (if g_DownloadFinished (exec10 sch init10) \<and> g_Data (exec10 sch init10) = []
         then P_return else P_lock)) \<and>
   (pc_ProcessData (exec10 sch init10) \<noteq> P_pop \<longrightarrow>
      g_Data (ProcessData (exec10 sch init10)) = g_Data (exec10 sch init10)) \<and>
   (pc_ProcessData (ProcessData (exec10 sch init10)) = P_return \<longrightarrow>
      g_DownloadFinished (exec10 sch init10) \<and> g_Data (exec10 sch init10) = []) \<and>
   (P_holds (pc_ProcessData (exec10 sch init10)) \<longrightarrow>
      g_Data (Download (exec10 sch init10)) = g_Data (exec10 sch init10) \<and>
      g_DownloadFinished (Download (exec10 sch init10)) = g_DownloadFinished (exec10 sch init10)) \<and>
   pc_ProcessData (exec10 sch init10) \<noteq> P_undefined"
proof -
  let ?s = "exec10 sch init10"
  have i: "inv10 ?s" by (rule inv10_reachable)
  have a: "pc_ProcessData ?s = P_wait \<Longrightarrow>
      pc_ProcessData (ProcessData ?s) =
        (if g_Data ?s \<noteq> [] \<or> g_DownloadFinished ?s then P_while else P_sleeping)"
    by (simp add: ProcessData_def wait_pred_def)
  have b: "pc_ProcessData ?s = P_while \<Longrightarrow>
      pc_ProcessData (ProcessData ?s) = (if g_Data ?s \<noteq> [] then P_pop else P_if)"
    by (simp add: ProcessData_def)
  have c1: "pc_ProcessData ?s = P_pop \<Longrightarrow> g_Data ?s \<noteq> []"
    using i by (simp add: inv10_def)
  have c2: "pc_ProcessData ?s = P_pop \<Longrightarrow>
      pc_ProcessData (ProcessData ?s) = P_unlock (hd (g_Data ?s))"
    using c1 by (cases "g_Data ?s") (simp_all add: ProcessData_def)
  have c3: "pc_ProcessData ?s = P_pop \<Longrightarrow> g_Data (ProcessData ?s) = tl (g_Data ?s)"
    using c1 by (cases "g_Data ?s") (simp_all add: ProcessData_def)
  have d: "pc_ProcessData ?s = P_if \<Longrightarrow>
      pc_ProcessData (ProcessData ?s) =
        (if g_DownloadFinished ?s \<and> g_Data ?s = [] then P_return else P_lock)"
    by (simp add: ProcessData_def)
  have e: "pc_ProcessData ?s \<noteq> P_pop \<Longrightarrow> g_Data (ProcessData ?s) = g_Data ?s"
    by (rule ProcessData_data)
  have f1: "pc_ProcessData (ProcessData ?s) = P_return \<Longrightarrow> g_DownloadFinished ?s"
    and f2: "pc_ProcessData (ProcessData ?s) = P_return \<Longrightarrow> g_Data ?s = []"
    using ProcessData_return [OF i] by simp_all
  have g1: "P_holds (pc_ProcessData ?s) \<Longrightarrow> g_Data (Download ?s) = g_Data ?s"
    and g2: "P_holds (pc_ProcessData ?s) \<Longrightarrow>
      g_DownloadFinished (Download ?s) = g_DownloadFinished ?s"
    using Download_keeps_locked [OF i] by simp_all
  have h: "pc_ProcessData ?s \<noteq> P_undefined"
    using i by (simp add: inv10_def)
  show ?thesis
    by (intro conjI impI; (rule h | (rule a b c1 c2 c3 d e f1 f2 g1 g2, assumption)))
qed

theorem pop_outcomes_witness:
  "pc_ProcessData (exec10 first_pop init10) = P_pop \<and>
   g_Data (exec10 first_pop init10) = [0] \<and>
   pc_ProcessData (ProcessData (exec10 first_pop init10)) = P_unlock 0 \<and>
   g_Data (ProcessData (exec10 first_pop init10)) = [] \<and>
   pc_ProcessData (exec10 last_test init10) = P_if \<and>
   g_DownloadFinished (exec10 last_test init10) \<and>
   g_Data (exec10 last_test init10) = [] \<and>
   pc_ProcessData (ProcessData (exec10 last_test init10)) = P_return"
proof -
  have a: "pc_ProcessData (exec10 first_pop init10) = P_pop"
    and b: "g_Data (exec10 first_pop init10) = [0]"
    by (simp_all add: first_pop_state)
  have c: "pc_ProcessData (exec10 last_test init10) = P_if"
    and d: "g_DownloadFinished (exec10 last_test init10)"
    and e: "g_Data (exec10 last_test init10) = []"
    by (simp_all add: last_test_state)
  note p = pop_outcomes [of first_pop, THEN conjunct2, THEN conjunct2, THEN conjunct1,
      THEN mp, OF a]
  note q = pop_outcomes [of last_test, THEN conjunct2, THEN conjunct2, THEN conjunct2,
      THEN conjunct1, THEN mp, OF c]
  have "pc_ProcessData (ProcessData (exec10 first_pop init10)) = P_unlock 0"
    and "g_Data (ProcessData (exec10 first_pop init10)) = []"
    using p b by simp_all
  moreover have "pc_ProcessData (ProcessData (exec10 last_test init10)) = P_return"
    using q d e by simp
  ultimately show ?thesis using a b c d e by simp
qed

lemma asleep_at_close_state:
  "exec10 asleep_at_close init10 =
     \<lparr>g_Data = [], g_DownloadFinished = True, g_Mutex = Some producer,
      pc_Download = D_unlock_fin, pc_ProcessData = P_sleeping,
      pushed = [0, 1, 2, 3, 4, 5, 6, 7, 8, 9], processed = [0, 1, 2, 3, 4, 5, 6, 7, 8, 9]\<rparr>"
  unfolding asleep_at_close_def by code_simp

lemma consumer_exits:
  assumes c: "closed_empty s"
    and a: "2 \<le> count_list a (Run producer)"
    and b: "5 \<le> count_list b (Run consumer)"
  shows "pc_ProcessData (exec10 (a @ b) s) = P_return"
proof -
  let ?m = "exec10 a s"
  have m: "closed_empty ?m" using c by (rule closed_empty_exec)
  have "Download_left (pc_Download s) \<le> count_list a (Run producer)"
    using a Download_left_le [of "pc_Download s"] by simp
  then have p: "Download_left (pc_Download ?m) = 0"
    using c by (simp add: producer_returns)
  have "ProcessData_left (pc_ProcessData ?m) \<le> count_list b (Run consumer)"
    using b ProcessData_left_le [of "pc_ProcessData ?m"] by simp
  then have q: "ProcessData_left (pc_ProcessData (exec10 b ?m)) = 0"
    using m p by (simp add: consumer_returns)
  have ce: "closed_empty (exec10 b ?m)" using m by (rule closed_empty_exec)
  have dl: "Download_left (pc_Download (exec10 b ?m)) = 0"
    using producer_returns [OF m, of b] p by simp
  show ?thesis using ce dl q by (simp add: ProcessData_left_0 exec10_append)
qed

text \<open>
  Claim C3. Once the flag is set and the queue is empty, the queue stays empty, the flag
  stays set and nothing more is pushed, whatever the threads do next; and the consumer
  leaves its loop after finitely many steps: in every continuation that gives the
  producer two statements (it releases the lock and notifies) and after them the
  consumer five statements, with anything else in between, including spurious wakeups,
  \<open>ProcessData\<close> has returned.
\<close>

theorem shutdown_terminates:
  "g_DownloadFinished (exec10 sch init10) \<and> g_Data (exec10 sch init10) = [] \<longrightarrow>
     g_Data (exec10 sch' (exec10 sch init10)) = [] \<and>
     g_DownloadFinished (exec10 sch' (exec10 sch init10)) \<and>
     pushed (exec10 sch' (exec10 sch init10)) = pushed (exec10 sch init10) \<and>
     (2 \<le> count_list a (Run producer) \<and> 5 \<le> count_list b (Run consumer) \<longrightarrow>
        pc_ProcessData (exec10 (a @ b) (exec10 sch init10)) = P_return)"
proof (intro impI, elim conjE)
  let ?s = "exec10 sch init10"
  assume f: "g_DownloadFinished ?s" and e: "g_Data ?s = []"
  have c: "closed_empty ?s" using f e by (simp add: closed_empty_def inv10_reachable)
  then have c': "closed_empty (exec10 sch' ?s)" by (rule closed_empty_exec)
  have "pushed (exec10 sch' ?s) = pushed ?s"
    using c c' by (simp add: closed_empty_def inv10_pushed_all)
  moreover have "2 \<le> count_list a (Run producer) \<and> 5 \<le> count_list b (Run consumer) \<longrightarrow>
        pc_ProcessData (exec10 (a @ b) ?s) = P_return"
    using consumer_exits [OF c] by blast
  ultimately show "g_Data (exec10 sch' ?s) = [] \<and> g_DownloadFinished (exec10 sch' ?s) \<and>
     pushed (exec10 sch' ?s) = pushed ?s \<and>
     (2 \<le> count_list a (Run producer) \<and> 5 \<le> count_list b (Run consumer) \<longrightarrow>
        pc_ProcessData (exec10 (a @ b) ?s) = P_return)"
    using c' by (simp add: closed_empty_def)
qed

theorem shutdown_terminates_witness:
  "g_DownloadFinished (exec10 asleep_at_close init10) \<and>
   g_Data (exec10 asleep_at_close init10) = [] \<and>
   pc_ProcessData (exec10 asleep_at_close init10) = P_sleeping \<and>
   g_Mutex (exec10 asleep_at_close init10) = Some producer \<and>
   2 \<le> count_list (replicate 2 (Run producer)) (Run producer :: thread event) \<and>
   5 \<le> count_list (replicate 5 (Run consumer)) (Run consumer :: thread event) \<and>
   pc_ProcessData (exec10 (replicate 2 (Run producer) @ replicate 5 (Run consumer))
      (exec10 asleep_at_close init10)) = P_return"
proof -
  have a: "g_DownloadFinished (exec10 asleep_at_close init10) \<and>
      g_Data (exec10 asleep_at_close init10) = []"
    by (simp add: asleep_at_close_state)
  have b: "2 \<le> count_list (replicate 2 (Run producer)) (Run producer :: thread event) \<and>
      5 \<le> count_list (replicate 5 (Run consumer)) (Run consumer :: thread event)"
    by code_simp
  note t = shutdown_terminates [of asleep_at_close "[]" "replicate 2 (Run producer)"
      "replicate 5 (Run consumer)", THEN mp, OF a, THEN conjunct2, THEN conjunct2,
      THEN conjunct2, THEN mp, OF b]
  show ?thesis using a b t by (simp add: asleep_at_close_state)
qed

lemma waiting_step:
  "in_wait (pc_ProcessData s) \<Longrightarrow> \<not> wait_pred s \<Longrightarrow> e \<noteq> Run producer \<Longrightarrow>
   in_wait (pc_ProcessData (step10 e s)) \<and> \<not> wait_pred (step10 e s) \<and>
   processed (step10 e s) = processed s \<and> g_Data (step10 e s) = g_Data s"
  by (cases e rule: event_cases; cases "pc_ProcessData s")
     (auto simp: ProcessData_def notify_one_def wait_pred_def)

lemma waiting_exec:
  "in_wait (pc_ProcessData s) \<Longrightarrow> \<not> wait_pred s \<Longrightarrow> Run producer \<notin> set sch \<Longrightarrow>
   in_wait (pc_ProcessData (exec10 sch s)) \<and> \<not> wait_pred (exec10 sch s) \<and>
   processed (exec10 sch s) = processed s \<and> g_Data (exec10 sch s) = g_Data s"
proof (induction sch arbitrary: s)
  case Nil
  then show ?case by simp
next
  case (Cons e sch)
  have e: "e \<noteq> Run producer" and r: "Run producer \<notin> set sch" using Cons.prems(3) by auto
  note st = waiting_step [OF Cons.prems(1,2) e]
  from st have 1: "in_wait (pc_ProcessData (step10 e s))" and 2: "\<not> wait_pred (step10 e s)"
    by simp_all
  show ?case using Cons.IH [OF 1 2 r] st by simp
qed

lemma close_idem: "close (close s) = close s"
  by (simp add: close_def notify_one_def)

lemma close_funpow: "(close ^^ Suc n) s = close s"
proof (induction n)
  case 0
  show ?case by simp
next
  case (Suc n)
  have "(close ^^ Suc (Suc n)) s = close ((close ^^ Suc n) s)" by simp
  also have "\<dots> = close (close s)" by (simp only: Suc)
  finally show ?case by (simp only: close_idem)
qed

lemma close_is_Download:
  "pc_Download s = D_lock_fin \<Longrightarrow> g_Mutex s = None \<Longrightarrow>
   (Download ^^ 4) s = (close s)\<lparr>pc_Download := D_return\<rparr>"
  by (simp add: eval_nat_numeral Download_def close_def notify_one_def)

lemma flag_monotonic: "g_DownloadFinished s \<Longrightarrow> g_DownloadFinished (step10 e s)"
  by (cases e rule: event_cases; cases "pc_Download s"; cases "pc_ProcessData s"; cases "g_Data s")
     (auto simp: Download_def ProcessData_def notify_one_def)

text \<open>
  Claim C6. \<open>close()\<close> is idempotent: applied twice, or any number of times, it gives
  the state that one application gives, so every later execution is the same. It sets
  the flag and changes nothing else of the data (the queue, the lock and the two console
  logs are as before; a suspended consumer is woken). It is what lines 38 to 42 of
  \<open>Download\<close> do when the lock is free, and no step of the program resets the flag.
\<close>

theorem close_idempotent:
  "close (close s) = close s \<and>
   (close ^^ Suc n) s = close s \<and>
   exec10 sch (close (close s)) = exec10 sch (close s) \<and>
   g_DownloadFinished (close s) \<and>
   g_Data (close s) = g_Data s \<and> g_Mutex (close s) = g_Mutex s \<and>
   pushed (close s) = pushed s \<and> processed (close s) = processed s \<and>
   pc_Download (close s) = pc_Download s \<and>
   pc_ProcessData (close s) =
     (if pc_ProcessData s = P_sleeping then P_woken else pc_ProcessData s) \<and>
   (pc_Download s = D_lock_fin \<and> g_Mutex s = None \<longrightarrow>
      (Download ^^ 4) s = (close s)\<lparr>pc_Download := D_return\<rparr>) \<and>
   (g_DownloadFinished s \<longrightarrow> g_DownloadFinished (step10 e s))"
proof -
  have a: "close (close s) = close s" by (rule close_idem)
  have b: "(close ^^ Suc n) s = close s" by (rule close_funpow)
  have c: "exec10 sch (close (close s)) = exec10 sch (close s)" by (simp only: a)
  have d: "pc_Download s = D_lock_fin \<and> g_Mutex s = None \<longrightarrow>
      (Download ^^ 4) s = (close s)\<lparr>pc_Download := D_return\<rparr>"
    using close_is_Download by blast
  have e: "g_DownloadFinished s \<longrightarrow> g_DownloadFinished (step10 e s)"
    using flag_monotonic by blast
  show ?thesis
    by (intro conjI; (rule a | rule b | rule c | rule d | rule e
          | simp add: close_def notify_one_def))
qed

lemma before_close_state:
  "exec10 before_close init10 =
     \<lparr>g_Data = [0, 1, 2, 3, 4, 5, 6, 7, 8, 9], g_DownloadFinished = False, g_Mutex = None,
      pc_Download = D_lock_fin, pc_ProcessData = P_lock,
      pushed = [0, 1, 2, 3, 4, 5, 6, 7, 8, 9], processed = []\<rparr>"
  unfolding before_close_def by code_simp

theorem close_idempotent_witness:
  "pc_Download (exec10 before_close init10) = D_lock_fin \<and>
   g_Mutex (exec10 before_close init10) = None \<and>
   (Download ^^ 4) (exec10 before_close init10) =
     (close (exec10 before_close init10))\<lparr>pc_Download := D_return\<rparr> \<and>
   close (close (exec10 before_close init10)) = close (exec10 before_close init10) \<and>
   g_DownloadFinished (close (exec10 before_close init10)) \<and>
   g_Data (close (exec10 before_close init10)) = [0, 1, 2, 3, 4, 5, 6, 7, 8, 9] \<and>
   g_DownloadFinished (step10 (Run consumer) (close (exec10 before_close init10)))"
proof -
  let ?s = "exec10 before_close init10"
  have a: "pc_Download ?s = D_lock_fin \<and> g_Mutex ?s = None"
    by (simp add: before_close_state)
  note t = close_idempotent [of ?s 0 "[]" "Run consumer"]
  note u = close_idempotent [of "close ?s" 0 "[]" "Run consumer"]
  have 1: "close (close ?s) = close ?s" using t by (rule conjunct1)
  have 2: "g_DownloadFinished (close ?s)"
    using t [THEN conjunct2, THEN conjunct2, THEN conjunct2] by (rule conjunct1)
  have 3: "g_Data (close ?s) = g_Data ?s"
    using t [THEN conjunct2, THEN conjunct2, THEN conjunct2, THEN conjunct2] by (rule conjunct1)
  have 4: "(Download ^^ 4) ?s = (close ?s)\<lparr>pc_Download := D_return\<rparr>"
    using t a by blast
  have 5: "g_DownloadFinished (step10 (Run consumer) (close ?s))"
    using u 2 by blast
  show ?thesis using a 1 2 3 4 5 by (simp add: before_close_state)
qed

section \<open>Verification of the Producer/Consumer program\<close>

lemma inv9_init: "inv9 init9"
  by (simp add: inv9_def init9_def SIZE9_def)

lemma upto_append_last: "a \<le> i \<Longrightarrow> [a..i - 1] @ [i] = [a..i]"
  by (simp add: upto_rec2)

lemma upto_eqI: "a = a' \<Longrightarrow> b = b' \<Longrightarrow> [a..b] = [a'..b']"
  by simp

lemma inv9_Producer: "inv9 s \<Longrightarrow> inv9 (Producer s)"
  unfolding inv9_def Producer_def
  by (cases "pc_Producer s"; cases "pc_Consumer s")
     (auto simp: notify_one9_def upto_append_last intro!: upto_eqI)

lemma Consumer_pop:
  assumes "inv9 s" and "pc_Consumer s = Co_pop i"
  shows "Consumer s = s\<lparr>g_data := [i + 1..produced_count (pc_Producer s)],
                           pc_Consumer := Co_print i i\<rparr>"
    and "i \<le> produced_count (pc_Producer s)"
proof -
  have g: "g_data s = [i..produced_count (pc_Producer s)]"
    using assms by (simp add: inv9_def)
  have n: "g_data s \<noteq> []"
    using assms by (auto simp: inv9_def)
  from g n show le: "i \<le> produced_count (pc_Producer s)" by simp
  then have "g_data s = i # [i + 1..produced_count (pc_Producer s)]"
    using g by (simp add: upto_rec1)
  then show "Consumer s = s\<lparr>g_data := [i + 1..produced_count (pc_Producer s)],
                           pc_Consumer := Co_print i i\<rparr>"
    using assms(2) by (simp add: Consumer_def)
qed

lemma inv9_Consumer: "inv9 s \<Longrightarrow> inv9 (Consumer s)"
proof (cases "pc_Consumer s")
  case (Co_pop i)
  assume i: "inv9 s"
  note p = Consumer_pop [OF i Co_pop]
  show "inv9 (Consumer s)"
    unfolding p(1) using i p(2) Co_pop
    by (cases "pc_Producer s") (auto simp: inv9_def)
qed (unfold inv9_def Consumer_def, cases "pc_Producer s";
     auto simp: upto_append_last intro!: upto_eqI)+

lemma inv9_notify: "inv9 s \<Longrightarrow> inv9 (notify_one9 s)"
  unfolding inv9_def
  by (cases "pc_Producer s"; cases "pc_Consumer s") (auto simp: notify_one9_def)


lemma event_cases9:
  fixes e :: "thread9 event"
  obtains "e = Run t1" | "e = Run t2" | "e = Spurious_wakeup"
proof (cases e)
  case (Run t)
  then show ?thesis using that by (cases t) simp_all
next
  case Spurious_wakeup
  then show ?thesis using that by simp
qed

lemma inv9_step: "inv9 s \<Longrightarrow> inv9 (step9 e s)"
  by (cases e rule: event_cases9) (simp_all add: inv9_Producer inv9_Consumer inv9_notify)

lemma exec9_Nil [simp]: "exec9 [] s = s"
  by (simp add: exec9_def)

lemma exec9_Cons [simp]: "exec9 (e # sch) s = exec9 sch (step9 e s)"
  by (simp add: exec9_def)

lemma inv9_exec: "inv9 s \<Longrightarrow> inv9 (exec9 sch s)"
  by (induction sch arbitrary: s) (simp_all add: inv9_step)

lemma inv9_reachable: "inv9 (exec9 sch init9)"
  by (simp add: inv9_exec inv9_init)





lemma waiting9_step:
  "in_wait9 (pc_Consumer s) \<Longrightarrow> g_data s = [] \<Longrightarrow> e \<noteq> Run t1 \<Longrightarrow>
   in_wait9 (pc_Consumer (step9 e s)) \<and> g_data (step9 e s) = [] \<and>
   consumed (step9 e s) = consumed s"
  by (cases e rule: event_cases9; cases "pc_Consumer s")
     (auto simp: Consumer_def notify_one9_def)

lemma waiting9_exec:
  "in_wait9 (pc_Consumer s) \<Longrightarrow> g_data s = [] \<Longrightarrow> Run t1 \<notin> set sch \<Longrightarrow>
   in_wait9 (pc_Consumer (exec9 sch s)) \<and> g_data (exec9 sch s) = [] \<and>
   consumed (exec9 sch s) = consumed s"
proof (induction sch arbitrary: s)
  case Nil
  then show ?case by simp
next
  case (Cons e sch)
  have e: "e \<noteq> Run t1" and r: "Run t1 \<notin> set sch" using Cons.prems(3) by auto
  note st = waiting9_step [OF Cons.prems(1,2) e]
  from st have 1: "in_wait9 (pc_Consumer (step9 e s))" and 2: "g_data (step9 e s) = []"
    by simp_all
  show ?case using Cons.IH [OF 1 2 r] st by simp
qed

section \<open>Waiting: both condition-variable programs\<close>

lemma early_consumer_state:
  "exec10 early_consumer init10 =
     \<lparr>g_Data = [], g_DownloadFinished = False, g_Mutex = None,
      pc_Download = D_for 0, pc_ProcessData = P_sleeping, pushed = [], processed = []\<rparr>"
  unfolding early_consumer_def by code_simp

lemma early_Consumer_state:
  "exec9 early_Consumer init9 =
     \<lparr>g_data = [], mtx = None, pc_Producer = Pr_for 1, pc_Consumer = Co_sleeping 1,
      produced = [], consumed = []\<rparr>"
  unfolding early_Consumer_def by code_simp

lemma returned_were_pushed:
  "inv10 s \<Longrightarrow> length (processed s) + length (in_hand s) \<le> length (pushed s)"
proof -
  assume "inv10 s"
  then have "processed s @ in_hand s @ g_Data s = pushed s" by (simp add: inv10_def)
  then have "length (processed s) + length (in_hand s) + length (g_Data s) = length (pushed s)"
    by (metis length_append add.assoc)
  then show ?thesis by simp
qed

lemma consumed_were_produced:
  "inv9 s \<Longrightarrow> length (consumed s) \<le> length (produced s)"
proof -
  assume i: "inv9 s"
  have "consumed_count (pc_Consumer s) \<le> taken_count (pc_Consumer s)"
    by (cases "pc_Consumer s") simp_all
  then have "consumed_count (pc_Consumer s) \<le> produced_count (pc_Producer s)"
    using i by (simp add: inv9_def)
  then show ?thesis using i by (simp add: inv9_def)
qed

text \<open>
  Claim C5. A pop never returns without a push or a close. In both programs, from any
  state in which the consumer is inside the wait and the predicate is false (the queue
  is empty and, in the Download/ProcessData program, the flag is not set), every
  sequence of wakeups and consumer steps with no producer step among them leaves the
  consumer inside the wait, with nothing taken and nothing reported: a wakeup with the
  predicate still false resumes waiting. And in every execution from the start, the
  items returned so far are no more than the items pushed so far, \<open>ProcessData\<close> has
  returned only with the flag set and the queue empty, and \<open>front()\<close> is never called on
  an empty queue.
\<close>

theorem no_spurious_return:
  "(in_wait (pc_ProcessData s) \<and> \<not> wait_pred s \<and> Run producer \<notin> set sch \<longrightarrow>
      in_wait (pc_ProcessData (exec10 sch s)) \<and> \<not> wait_pred (exec10 sch s) \<and>
      processed (exec10 sch s) = processed s \<and> g_Data (exec10 sch s) = g_Data s) \<and>
   (in_wait9 (pc_Consumer u) \<and> g_data u = [] \<and> Run t1 \<notin> set sch9 \<longrightarrow>
      in_wait9 (pc_Consumer (exec9 sch9 u)) \<and> g_data (exec9 sch9 u) = [] \<and>
      consumed (exec9 sch9 u) = consumed u) \<and>
   length (processed (exec10 run init10)) + length (in_hand (exec10 run init10))
     \<le> length (pushed (exec10 run init10)) \<and>
   (pc_ProcessData (exec10 run init10) = P_return \<longrightarrow>
      g_DownloadFinished (exec10 run init10) \<and> g_Data (exec10 run init10) = []) \<and>
   length (consumed (exec9 run9 init9)) \<le> length (produced (exec9 run9 init9)) \<and>
   pc_ProcessData (exec10 run init10) \<noteq> P_undefined \<and>
   pc_Consumer (exec9 run9 init9) \<noteq> Co_undefined"
proof -
  have i: "inv10 (exec10 run init10)" by (rule inv10_reachable)
  have j: "inv9 (exec9 run9 init9)" by (rule inv9_reachable)
  have 1: "in_wait (pc_ProcessData s) \<and> \<not> wait_pred s \<and> Run producer \<notin> set sch \<longrightarrow>
      in_wait (pc_ProcessData (exec10 sch s)) \<and> \<not> wait_pred (exec10 sch s) \<and>
      processed (exec10 sch s) = processed s \<and> g_Data (exec10 sch s) = g_Data s"
    using waiting_exec [of s sch] by blast
  have 2: "in_wait9 (pc_Consumer u) \<and> g_data u = [] \<and> Run t1 \<notin> set sch9 \<longrightarrow>
      in_wait9 (pc_Consumer (exec9 sch9 u)) \<and> g_data (exec9 sch9 u) = [] \<and>
      consumed (exec9 sch9 u) = consumed u"
    using waiting9_exec [of u sch9] by blast
  have 3: "length (processed (exec10 run init10)) + length (in_hand (exec10 run init10))
     \<le> length (pushed (exec10 run init10))"
    using i by (rule returned_were_pushed)
  have 4: "pc_ProcessData (exec10 run init10) = P_return \<longrightarrow>
      g_DownloadFinished (exec10 run init10) \<and> g_Data (exec10 run init10) = []"
    using i by (auto simp: inv10_def)
  have 5: "length (consumed (exec9 run9 init9)) \<le> length (produced (exec9 run9 init9))"
    using j by (rule consumed_were_produced)
  have 6: "pc_ProcessData (exec10 run init10) \<noteq> P_undefined"
    using i by (simp add: inv10_def)
  have 7: "pc_Consumer (exec9 run9 init9) \<noteq> Co_undefined"
    using j by (auto simp: inv9_def)
  show ?thesis
    by (intro conjI; (rule 1 | rule 2 | rule 3 | rule 4 | rule 5 | rule 6 | rule 7))
qed

theorem no_spurious_return_witness:
  "in_wait (pc_ProcessData (exec10 early_consumer init10)) \<and>
   \<not> wait_pred (exec10 early_consumer init10) \<and>
   Run producer \<notin> set wakeups_only \<and>
   in_wait (pc_ProcessData (exec10 wakeups_only (exec10 early_consumer init10))) \<and>
   processed (exec10 wakeups_only (exec10 early_consumer init10)) = [] \<and>
   in_wait9 (pc_Consumer (exec9 early_Consumer init9)) \<and>
   g_data (exec9 early_Consumer init9) = [] \<and>
   Run t1 \<notin> set wakeups_only9 \<and>
   in_wait9 (pc_Consumer (exec9 wakeups_only9 (exec9 early_Consumer init9))) \<and>
   consumed (exec9 wakeups_only9 (exec9 early_Consumer init9)) = []"
proof -
  let ?s = "exec10 early_consumer init10" and ?u = "exec9 early_Consumer init9"
  have a: "in_wait (pc_ProcessData ?s) \<and> \<not> wait_pred ?s \<and> Run producer \<notin> set wakeups_only"
    by (simp add: early_consumer_state wait_pred_def wakeups_only_def)
  have b: "in_wait9 (pc_Consumer ?u) \<and> g_data ?u = [] \<and> Run t1 \<notin> set wakeups_only9"
    by (simp add: early_Consumer_state wakeups_only9_def)
  note t = no_spurious_return [of ?s wakeups_only ?u wakeups_only9 "[]" "[]"]
  note t1 = t [THEN conjunct1, THEN mp, OF a]
  note t2 = t [THEN conjunct2, THEN conjunct1, THEN mp, OF b]
  have c: "processed ?s = []" and d: "consumed ?u = []"
    by (simp_all add: early_consumer_state early_Consumer_state)
  show ?thesis using a b t1 t2 c d by simp
qed

section \<open>Verification of the two downloaders\<close>

lemma inv5_init: "inv5 init5"
  by (simp add: inv5_def init5_def SIZE5_def occurrences_def)

lemma occurrences_Suc: "0 \<le> i \<Longrightarrow> occurrences (i + 1) k = occurrences i k + (if k = i then 1 else 0)"
  by (auto simp: occurrences_def)

lemma inv5_Download5: "inv5 s \<Longrightarrow> inv5 (Download5 s)"
  unfolding inv5_def Download5_def
  by (cases "pc_thDownloader s"; cases "pc_thDownloader2 s")
     (auto simp: occurrences_Suc)

lemma inv5_Download2: "inv5 s \<Longrightarrow> inv5 (Download2 s)"
  unfolding inv5_def Download2_def
  by (cases "pc_thDownloader s"; cases "pc_thDownloader2 s")
     (auto simp: occurrences_Suc)


lemma inv5_step: "inv5 s \<Longrightarrow> inv5 (step5 t s)"
  by (cases t) (simp_all add: inv5_Download5 inv5_Download2)

lemma exec5_Nil [simp]: "exec5 [] s = s"
  by (simp add: exec5_def)

lemma exec5_Cons [simp]: "exec5 (t # sch) s = exec5 sch (step5 t s)"
  by (simp add: exec5_def)

lemma exec5_append: "exec5 (a @ b) s = exec5 b (exec5 a s)"
  by (simp add: exec5_def)

lemma inv5_exec: "inv5 s \<Longrightarrow> inv5 (exec5 sch s)"
  by (induction sch arbitrary: s) (simp_all add: inv5_step)

lemma inv5_reachable: "inv5 (exec5 sch init5)"
  by (simp add: inv5_exec inv5_init)

lemma replicate_four: "replicate (4 * Suc m + 1) t = t # t # t # t # replicate (4 * m + 1) t"
proof -
  have "4 * Suc m + 1 = Suc (Suc (Suc (Suc (4 * m + 1))))" by simp
  then show ?thesis by (simp only: replicate_Suc)
qed

lemma Download5_alone:
  "pc_thDownloader s = L_for i \<Longrightarrow> 0 \<le> i \<Longrightarrow> i \<le> SIZE5 \<Longrightarrow> g_Mutex5 s = None \<Longrightarrow>
   n = nat (SIZE5 - i) \<Longrightarrow>
   g_Data5 (exec5 (replicate (4 * n + 1) thDownloader) s) = g_Data5 s @ [i..SIZE5 - 1] \<and>
   g_Mutex5 (exec5 (replicate (4 * n + 1) thDownloader) s) = None \<and>
   pc_thDownloader (exec5 (replicate (4 * n + 1) thDownloader) s) = L_return \<and>
   pc_thDownloader2 (exec5 (replicate (4 * n + 1) thDownloader) s) = pc_thDownloader2 s"
proof (induction n arbitrary: i s)
  case 0
  then have "i = SIZE5" by simp
  then show ?case using 0 by (simp add: Download5_def)
next
  case (Suc n)
  then have lt: "i < SIZE5" by simp
  let ?s4 = "step5 thDownloader (step5 thDownloader (step5 thDownloader (step5 thDownloader s)))"
  have s4: "pc_thDownloader ?s4 = L_for (i + 1)" "g_Mutex5 ?s4 = None"
    "g_Data5 ?s4 = g_Data5 s @ [i]" "pc_thDownloader2 ?s4 = pc_thDownloader2 s"
    using Suc.prems lt by (simp_all add: Download5_def)
  have n: "n = nat (SIZE5 - (i + 1))" using Suc.prems by simp
  have b: "0 \<le> i + 1" "i + 1 \<le> SIZE5" using Suc.prems lt by simp_all
  note ih = Suc.IH [OF s4(1) b s4(2) n]
  have u: "[i..SIZE5 - 1] = i # [i + 1..SIZE5 - 1]" using lt by (simp add: upto_rec1)
  show ?case unfolding replicate_four using ih s4 u by simp
qed

lemma Download2_alone:
  "pc_thDownloader2 s = L_for i \<Longrightarrow> 0 \<le> i \<Longrightarrow> i \<le> SIZE5 \<Longrightarrow> g_Mutex5 s = None \<Longrightarrow>
   n = nat (SIZE5 - i) \<Longrightarrow>
   g_Data5 (exec5 (replicate (4 * n + 1) thDownloader2) s) = g_Data5 s @ [i..SIZE5 - 1] \<and>
   g_Mutex5 (exec5 (replicate (4 * n + 1) thDownloader2) s) = None \<and>
   pc_thDownloader2 (exec5 (replicate (4 * n + 1) thDownloader2) s) = L_return \<and>
   pc_thDownloader (exec5 (replicate (4 * n + 1) thDownloader2) s) = pc_thDownloader s"
proof (induction n arbitrary: i s)
  case 0
  then have "i = SIZE5" by simp
  then show ?case using 0 by (simp add: Download2_def)
next
  case (Suc n)
  then have lt: "i < SIZE5" by simp
  let ?s4 = "step5 thDownloader2 (step5 thDownloader2 (step5 thDownloader2 (step5 thDownloader2 s)))"
  have s4: "pc_thDownloader2 ?s4 = L_for (i + 1)" "g_Mutex5 ?s4 = None"
    "g_Data5 ?s4 = g_Data5 s @ [i]" "pc_thDownloader ?s4 = pc_thDownloader s"
    using Suc.prems lt by (simp_all add: Download2_def)
  have n: "n = nat (SIZE5 - (i + 1))" using Suc.prems by simp
  have b: "0 \<le> i + 1" "i + 1 \<le> SIZE5" using Suc.prems lt by simp_all
  note ih = Suc.IH [OF s4(1) b s4(2) n]
  have u: "[i..SIZE5 - 1] = i # [i + 1..SIZE5 - 1]" using lt by (simp add: upto_rec1)
  show ?case unfolding replicate_four using ih s4 u by simp
qed

lemma one_after_the_other_returns:
  "pc_thDownloader (exec5 one_after_the_other init5) = L_return \<and>
   pc_thDownloader2 (exec5 one_after_the_other init5) = L_return"
proof -
  let ?a = "exec5 (replicate (4 * nat SIZE5 + 1) thDownloader) init5"
  have a: "g_Mutex5 ?a = None \<and> pc_thDownloader ?a = L_return \<and>
      pc_thDownloader2 ?a = L_for 0"
    using Download5_alone [of init5 0 "nat SIZE5"] by (simp add: init5_def SIZE5_def)
  then show ?thesis
    using Download2_alone [of ?a 0 "nat SIZE5"]
    by (simp add: one_after_the_other_def exec5_append SIZE5_def)
qed

text \<open>
  Claim C8. In every interleaving of the two downloader threads, the length of \<open>g_Data\<close>
  is the number of items the first has appended plus the number the second has
  appended, and the two are never inside their critical sections together. After both
  have returned, each has appended its \<open>SIZE = 100000\<close> items: the list holds exactly
  \<open>2 * SIZE = 200000\<close> elements, which is what \<open>main\<close> prints, and each value from 0 to
  99999 occurs in it exactly twice, so no append is lost.
\<close>

theorem both_downloads_counted:
  "int (length (g_Data5 (exec5 sch init5))) =
     appended (pc_thDownloader (exec5 sch init5)) +
     appended (pc_thDownloader2 (exec5 sch init5)) \<and>
   (pc_thDownloader (exec5 sch init5) = L_return \<and>
    pc_thDownloader2 (exec5 sch init5) = L_return \<longrightarrow>
      length (g_Data5 (exec5 sch init5)) = 200000 \<and>
      main5 sch = Some 200000 \<and>
      count_list (g_Data5 (exec5 sch init5)) k = (if 0 \<le> k \<and> k < 100000 then 2 else 0)) \<and>
   \<not> (L_holds (pc_thDownloader (exec5 sch init5)) \<and>
      L_holds (pc_thDownloader2 (exec5 sch init5)))"
proof -
  let ?s = "exec5 sch init5"
  have i: "inv5 ?s" by (rule inv5_reachable)
  then have 1: "int (length (g_Data5 ?s)) =
      appended (pc_thDownloader ?s) + appended (pc_thDownloader2 ?s)"
    and 3: "\<not> (L_holds (pc_thDownloader ?s) \<and> L_holds (pc_thDownloader2 ?s))"
    and c: "count_list (g_Data5 ?s) k =
      occurrences (appended (pc_thDownloader ?s)) k +
      occurrences (appended (pc_thDownloader2 ?s)) k"
    by (simp_all add: inv5_def)
  have 2: "length (g_Data5 ?s) = 200000 \<and> main5 sch = Some 200000 \<and>
      count_list (g_Data5 ?s) k = (if 0 \<le> k \<and> k < 100000 then 2 else 0)"
    if r: "pc_thDownloader ?s = L_return \<and> pc_thDownloader2 ?s = L_return"
  proof -
    have l: "length (g_Data5 ?s) = 200000" using 1 r by (simp add: SIZE5_def)
    then have "main5 sch = Some 200000" using r by (simp add: main5_def)
    moreover have "count_list (g_Data5 ?s) k = (if 0 \<le> k \<and> k < 100000 then 2 else 0)"
      using c r by (simp add: occurrences_def SIZE5_def)
    ultimately show ?thesis using l by simp
  qed
  show ?thesis using 1 2 3 by blast
qed

theorem both_downloads_counted_witness:
  "pc_thDownloader (exec5 one_after_the_other init5) = L_return \<and>
   pc_thDownloader2 (exec5 one_after_the_other init5) = L_return \<and>
   length (g_Data5 (exec5 one_after_the_other init5)) = 200000 \<and>
   main5 one_after_the_other = Some 200000 \<and>
   count_list (g_Data5 (exec5 one_after_the_other init5)) 7 = 2"
proof -
  note a = one_after_the_other_returns
  note t = both_downloads_counted [of one_after_the_other 7, THEN conjunct2, THEN conjunct1,
      THEN mp, OF a]
  show ?thesis using a t by simp
qed

section \<open>The scenario of five pushes, a close and six pops\<close>











end
